theory Spec2Isabelle
  imports Complex_Main "HOL-Library.Multiset"
begin

section \<open>Text\<close>

text \<open>
  A Python \<open>str\<close> is a sequence of Unicode code points, so a text is a list of code
  points. \<open>ustr_of\<close> reads an ASCII literal.
\<close>

type_synonym ustr = "nat list"

definition ustr_of :: "string \<Rightarrow> ustr" where
  "ustr_of s = map of_char s"

text \<open>Python's \<open>sub in text\<close> on strings: \<open>sub\<close> occurs as a contiguous piece.\<close>

fun starts_with :: "'a list \<Rightarrow> 'a list \<Rightarrow> bool" where
  "starts_with [] ys = True"
| "starts_with (x # xs) [] = False"
| "starts_with (x # xs) (y # ys) = (x = y \<and> starts_with xs ys)"

fun py_in :: "'a list \<Rightarrow> 'a list \<Rightarrow> bool" where
  "py_in sub [] = (sub = [])"
| "py_in sub (c # cs) = (starts_with sub (c # cs) \<or> py_in sub cs)"

section \<open>Range detection (tools/translate_pdf_range.py, find_translation_range)\<close>

definition START_MARKER :: ustr where
  "START_MARKER = ustr_of ''OVERVIEW OF ENERGY SOURCES AND SAFEGUARDS''"

definition END_MARKERS :: "ustr list" where
  "END_MARKERS = [ustr_of ''ATTACHMENT TO TEST REPORT'', ustr_of ''ATTACHMENTS TO TEST REPORT'']"

text \<open>
  A page is what \<open>page.extract_text()\<close> gives: a text or \<open>None\<close>;
  \<open>page_text\<close> is \<open>page.extract_text() or ""\<close>.
\<close>

definition page_text :: "ustr option \<Rightarrow> ustr" where
  "page_text p = (case p of None \<Rightarrow> [] | Some t \<Rightarrow> t)"

definition has_start :: "ustr option \<Rightarrow> bool" where
  "has_start p = py_in START_MARKER (page_text p)"

text \<open>The inner \<open>for end_marker in END_MARKERS\<close> loop finds a marker or not.\<close>

definition has_end :: "ustr option \<Rightarrow> bool" where
  "has_end p = list_ex (\<lambda>end_marker. py_in end_marker (page_text p)) END_MARKERS"

text \<open>
  The loop over \<open>enumerate(pdf.pages)\<close>: \<open>n\<close> is \<open>len(pdf.pages)\<close>, \<open>i\<close> the index
  of the head of the pages still to scan, and \<open>start_page\<close>, \<open>end_page\<close> the two loop
  variables. The start test and the end test both run on every page scanned.
\<close>

fun scan_pages :: "ustr option list \<Rightarrow> nat \<Rightarrow> nat \<Rightarrow> nat option \<Rightarrow> nat \<Rightarrow> nat option \<times> nat" where
  "scan_pages [] n i start_page end_page = (start_page, end_page)"
| "scan_pages (p # ps) n i start_page end_page =
     (let start_page' = (if start_page = None \<and> has_start p then Some i else start_page);
          end_page' = (if has_end p then i else end_page)
      in if end_page' \<noteq> n then (start_page', end_page')
         else scan_pages ps n (Suc i) start_page' end_page')"

definition find_translation_range :: "ustr option list \<Rightarrow> nat \<times> nat" where
  "find_translation_range pages =
     (let n = length pages;
          (start_page, end_page) = scan_pages pages n 0 None n
      in ((case start_page of None \<Rightarrow> 0 | Some s \<Rightarrow> s), end_page))"

text \<open>
  The range detector as the specification words it, for comparison: a two-state
  automaton (START_SEARCH, IN_RANGE) in which end markers are looked for only once the
  start marker has been matched. \<open>spec_search\<close> is state START_SEARCH, \<open>spec_in_range\<close>
  is state IN_RANGE; the page that matches the start marker is also tested for an end
  marker.
\<close>

fun spec_in_range :: "ustr option list \<Rightarrow> nat \<Rightarrow> nat \<Rightarrow> nat" where
  "spec_in_range [] n i = n"
| "spec_in_range (p # ps) n i = (if has_end p then i else spec_in_range ps n (Suc i))"

fun spec_search :: "ustr option list \<Rightarrow> nat \<Rightarrow> nat \<Rightarrow> nat \<times> nat" where
  "spec_search [] n i = (0, n)"
| "spec_search (p # ps) n i =
     (if has_start p then (i, spec_in_range (p # ps) n i) else spec_search ps n (Suc i))"

definition spec_range :: "ustr option list \<Rightarrow> nat \<times> nat" where
  "spec_range pages = spec_search pages (length pages) 0"

section \<open>Eligibility (core/llm_translator.py)\<close>

text \<open>
  The characters of the class U+4E00 to U+9FFF, and the white space of Python 3: the code
  points for which \<open>str.isspace\<close> holds, which are the ones \<open>\s\<close> matches in a
  \<open>str\<close> pattern and the ones \<open>str.strip()\<close> removes.
\<close>

definition is_cjk :: "nat \<Rightarrow> bool" where
  "is_cjk c = (0x4E00 \<le> c \<and> c \<le> 0x9FFF)"

definition is_space :: "nat \<Rightarrow> bool" where
  "is_space c =
     ((0x09 \<le> c \<and> c \<le> 0x0D) \<or> (0x1C \<le> c \<and> c \<le> 0x20) \<or> c = 0x85 \<or> c = 0xA0
      \<or> c = 0x1680 \<or> (0x2000 \<le> c \<and> c \<le> 0x200A) \<or> c = 0x2028 \<or> c = 0x2029
      \<or> c = 0x202F \<or> c = 0x205F \<or> c = 0x3000)"

definition py_strip :: "ustr \<Rightarrow> ustr" where
  "py_strip s = rev (dropWhile is_space (rev (dropWhile is_space s)))"

definition is_upper_AZ :: "nat \<Rightarrow> bool" where
  "is_upper_AZ c = (0x41 \<le> c \<and> c \<le> 0x5A)"

text \<open>
  \<open>\d\<close> in a \<open>str\<close> pattern matches every Unicode decimal digit (category Nd). That
  table belongs to the Python runtime, not to this repository, so it is a parameter
  \<open>dec\<close> of the functions below. \<open>ascii_digits dec\<close> says what every version of the
  table says on ASCII: the decimal digits there are \<open>0\<close> to \<open>9\<close>.
\<close>

definition ascii_digits :: "(nat \<Rightarrow> bool) \<Rightarrow> bool" where
  "ascii_digits dec = (\<forall>c<128. dec c = (0x30 \<le> c \<and> c \<le> 0x39))"

definition ascii_dec :: "nat \<Rightarrow> bool" where
  "ascii_dec c = (0x30 \<le> c \<and> c \<le> 0x39)"

text \<open>
  The two patterns have the shape \<open>^ C1q1 ... Ckqk $\<close> with character classes \<open>Ci\<close>
  and quantifiers \<open>+\<close> or \<open>*\<close>. \<open>re_match items s\<close> is whether \<open>re.match\<close> of such a
  pattern on \<open>s\<close> finds a match (with backtracking, any split will do). Without the
  MULTILINE flag \<open>$\<close> matches at the end of the string and before a newline that ends the
  string.
\<close>

datatype quant = Plus | Star

definition at_end :: "ustr \<Rightarrow> bool" where
  "at_end s = (s = [] \<or> s = [0x0A])"

fun re_match :: "((nat \<Rightarrow> bool) \<times> quant) list \<Rightarrow> ustr \<Rightarrow> bool" where
  "re_match [] s = at_end s"
| "re_match ((cls, Plus) # items) [] = False"
| "re_match ((cls, Plus) # items) (c # s) = (cls c \<and> re_match ((cls, Star) # items) s)"
| "re_match ((cls, Star) # items) [] = re_match items []"
| "re_match ((cls, Star) # items) (c # s) =
     ((cls c \<and> re_match ((cls, Star) # items) s) \<or> re_match items (c # s))"

text \<open>\<open>[\d\s\.\-\+\/%\<degree>\<dots>]\<close>: digits, white space, and \<open>. - + / %\<close>, U+00B0, U+2103, U+03A9.\<close>

definition numeric_class :: "(nat \<Rightarrow> bool) \<Rightarrow> nat \<Rightarrow> bool" where
  "numeric_class dec c =
     (dec c \<or> is_space c \<or> c = 0x2E \<or> c = 0x2D \<or> c = 0x2B \<or> c = 0x2F \<or> c = 0x25
      \<or> c = 0xB0 \<or> c = 0x2103 \<or> c = 0x3A9)"

text \<open>\<open>[\-\d\.]\<close>\<close>

definition code_tail_class :: "(nat \<Rightarrow> bool) \<Rightarrow> nat \<Rightarrow> bool" where
  "code_tail_class dec c = (c = 0x2D \<or> dec c \<or> c = 0x2E)"

text \<open>\<open>^[\d\s\.\-\+\/%\<degree>\<dots>]+$\<close> and \<open>^[A-Z]+\s*\d+[\-\d\.]*$\<close>\<close>

definition numeric_pattern :: "(nat \<Rightarrow> bool) \<Rightarrow> ustr \<Rightarrow> bool" where
  "numeric_pattern dec s = re_match [(numeric_class dec, Plus)] s"

definition standard_pattern :: "(nat \<Rightarrow> bool) \<Rightarrow> ustr \<Rightarrow> bool" where
  "standard_pattern dec s =
     re_match [(is_upper_AZ, Plus), (is_space, Star), (dec, Plus), (code_tail_class dec, Star)] s"

text \<open>
  \<open>_is_chinese\<close>. The source compares the float \<open>chinese_chars / total_chars\<close> with the
  float \<open>0.3\<close>; both counts are lengths, and for counts below \<open>10^15\<close> that comparison
  holds exactly when \<open>10 * chinese_chars > 3 * total_chars\<close>, which is what is written
  here.
\<close>

definition is_chinese :: "ustr \<Rightarrow> bool" where
  "is_chinese text =
     (if text = [] then True
      else let chinese_chars = length (filter is_cjk text);
               total_chars = length (filter (\<lambda>c. \<not> is_space c) text)
           in if total_chars = 0 then True
              else 10 * chinese_chars > 3 * total_chars)"

definition should_translate :: "(nat \<Rightarrow> bool) \<Rightarrow> ustr \<Rightarrow> bool" where
  "should_translate dec text =
     (if text = [] \<or> length (py_strip text) < 3 then False
      else if is_chinese text then False
      else if numeric_pattern dec text then False
      else if standard_pattern dec (py_strip text) then False
      else True)"

section \<open>The translator (core/llm_translator.py, class LLMTranslator)\<close>

text \<open>
  The state of an \<open>LLMTranslator\<close>: the \<open>enabled\<close> flag and the cache, a dict from
  trimmed source text to translation. \<open>calls\<close> is not a field of the class: it logs the
  user text of every request sent to the backend, in order, so that requests can be
  counted.
\<close>

record translator =
  enabled :: bool
  cache :: "ustr \<rightharpoonup> ustr"
  calls :: "ustr list"

text \<open>
  What lies outside the repository: the backend, the Unicode digit table and the order in
  which a thread pool completes its tasks. \<open>upstream E log text\<close> is the backend's answer
  to a request for \<open>text\<close> after the requests \<open>log\<close>: \<open>Some content\<close> is the message
  content of the response, \<open>None\<close> stands for any exception raised inside the \<open>try\<close>
  block of \<open>translate\<close>. \<open>completion E\<close> reorders the finished tasks as
  \<open>as_completed\<close> yields them.
\<close>

record env =
  upstream :: "ustr list \<Rightarrow> ustr \<Rightarrow> ustr option"
  decimal :: "nat \<Rightarrow> bool"
  completion :: "(nat \<times> ustr) list \<Rightarrow> (nat \<times> ustr) list"

text \<open>
  \<open>__init__\<close>: \<open>has_openai\<close> is whether the import of the openai package succeeded,
  \<open>api_key\<close> is \<open>os.getenv("AZURE_OPENAI_API_KEY")\<close> and \<open>client_ok\<close> is whether the
  constructor \<open>AzureOpenAI(...)\<close> returns rather than raises.
\<close>

definition init :: "bool \<Rightarrow> ustr option \<Rightarrow> bool \<Rightarrow> translator" where
  "init has_openai api_key client_ok =
     (let self = \<lparr>enabled = False, cache = Map.empty, calls = []\<rparr>
      in if \<not> has_openai then self
         else if api_key = None \<or> api_key = Some [] then self
         else if client_ok then self\<lparr>enabled := True\<rparr>
         else self)"

definition translate :: "env \<Rightarrow> translator \<Rightarrow> ustr \<Rightarrow> ustr \<times> translator" where
  "translate E self text =
     (if \<not> enabled self \<or> \<not> should_translate (decimal E) text then (text, self)
      else let cache_key = py_strip text
           in case cache self cache_key of
                Some v \<Rightarrow> (v, self)
              | None \<Rightarrow>
                  (case upstream E (calls self) text of
                     Some content \<Rightarrow>
                       (let result = py_strip content
                        in (result, self\<lparr>cache := (cache self)(cache_key \<mapsto> result),
                                         calls := calls self @ [text]\<rparr>))
                   | None \<Rightarrow> (text, self\<lparr>calls := calls self @ [text]\<rparr>)))"

text \<open>\<open>_translate_single_for_batch\<close>; \<open>translate\<close> catches every exception itself.\<close>

definition translate_single_for_batch ::
  "env \<Rightarrow> translator \<Rightarrow> ustr \<Rightarrow> nat \<Rightarrow> (nat \<times> ustr) \<times> translator" where
  "translate_single_for_batch E self text idx =
     (let (result, self') = translate E self text in ((idx, result), self'))"

text \<open>
  The first loop of \<open>translate_batch\<close>, over \<open>enumerate(texts)\<close>, with its three
  variables \<open>results\<close>, \<open>to_translate\<close> and \<open>indices\<close>.
\<close>

fun partition_uncached ::
  "(nat \<Rightarrow> bool) \<Rightarrow> (ustr \<rightharpoonup> ustr) \<Rightarrow> (nat \<times> ustr) list
   \<Rightarrow> ustr list \<times> ustr list \<times> nat list \<Rightarrow> ustr list \<times> ustr list \<times> nat list" where
  "partition_uncached dec c [] acc = acc"
| "partition_uncached dec c ((i, text) # rest) (results, to_translate, indices) =
     (if should_translate dec text then
        (case c (py_strip text) of
           Some v \<Rightarrow> partition_uncached dec c rest (results[i := v], to_translate, indices)
         | None \<Rightarrow> partition_uncached dec c rest (results, to_translate @ [text], indices @ [i]))
      else partition_uncached dec c rest (results, to_translate, indices))"

text \<open>
  The pool. Each submitted task runs \<open>_translate_single_for_batch\<close>; here a task runs to
  its end before the next one starts, in the order of submission, which is what a pool
  of one worker does. With more workers the steps of several tasks interleave; this
  function does not describe those runs.
\<close>

fun run_pool :: "env \<Rightarrow> translator \<Rightarrow> (nat \<times> ustr) list \<Rightarrow> (nat \<times> ustr) list \<times> translator" where
  "run_pool E self [] = ([], self)"
| "run_pool E self ((i, text) # rest) =
     (let (r, self') = translate_single_for_batch E self text i;
          (rs, self'') = run_pool E self' rest
      in (r # rs, self''))"

text \<open>
  The loop over \<open>as_completed(futures)\<close>: every finished task writes its slot. An index
  out of range would raise inside the \<open>try\<close> and leave \<open>results\<close> as it is.
\<close>

definition store_result :: "nat list \<Rightarrow> nat \<times> ustr \<Rightarrow> ustr list \<Rightarrow> ustr list" where
  "store_result indices fut results =
     (let (batch_idx, translated) = fut
      in if batch_idx < length indices \<and> indices ! batch_idx < length results
         then results[indices ! batch_idx := translated]
         else results)"

definition collect :: "nat list \<Rightarrow> (nat \<times> ustr) list \<Rightarrow> ustr list \<Rightarrow> ustr list" where
  "collect indices finished results = fold (store_result indices) finished results"

definition translate_batch :: "env \<Rightarrow> translator \<Rightarrow> ustr list \<Rightarrow> ustr list \<times> translator" where
  "translate_batch E self texts =
     (if \<not> enabled self then (texts, self)
      else let (results, to_translate, indices) =
                 partition_uncached (decimal E) (cache self) (List.enumerate 0 texts) (texts, [], [])
           in if to_translate = [] then (results, self)
              else let (finished, self') = run_pool E self (List.enumerate 0 to_translate)
                   in (collect indices (completion E finished) results, self'))"

text \<open>
  \<open>final_review\<close>. A \<open>Dict[str, str]\<close> is a list of (key, value) pairs in insertion
  order; \<open>dict_set\<close> is \<open>result[key] = v\<close>.
\<close>

fun dict_set :: "('k \<times> 'v) list \<Rightarrow> 'k \<Rightarrow> 'v \<Rightarrow> ('k \<times> 'v) list" where
  "dict_set [] key v = [(key, v)]"
| "dict_set ((k, w) # kvs) key v = (if k = key then (k, v) # kvs else (k, w) # dict_set kvs key v)"

definition needs_review :: "(nat \<Rightarrow> bool) \<Rightarrow> ustr \<Rightarrow> bool" where
  "needs_review dec v = (v \<noteq> [] \<and> \<not> is_chinese v \<and> should_translate dec v)"

definition write_back :: "ustr list \<Rightarrow> ustr list \<Rightarrow> (ustr \<times> ustr) list \<Rightarrow> (ustr \<times> ustr) list" where
  "write_back keys translated texts =
     fold (\<lambda>(i, key) result. dict_set result key (translated ! i)) (List.enumerate 0 keys) texts"

definition final_review ::
  "env \<Rightarrow> translator \<Rightarrow> (ustr \<times> ustr) list \<Rightarrow> (ustr \<times> ustr) list \<times> translator" where
  "final_review E self texts =
     (if \<not> enabled self then (texts, self)
      else let to_review = filter (\<lambda>(key, v). needs_review (decimal E) v) texts
           in if to_review = [] then (texts, self)
              else let keys = map fst to_review;
                       vals = map snd to_review;
                       (translated, self') = translate_batch E self vals
                   in (write_back keys translated texts, self'))"

section \<open>Table geometry (tools/translate_pdf_range.py)\<close>

text \<open>
  Coordinates and fill intensities are Python floats. A float is a rational number and
  the comparisons of the source are exact on them, so they are rationals here. A sum or
  a difference of two floats is the exact result rounded to the nearest float; that
  rounding belongs to the arithmetic of the runtime and is the parameter \<open>fl\<close> of the
  functions that add or subtract the tolerance: \<open>cx0 + tolerance\<close> is
  \<open>fl (cx0 + tolerance)\<close>. An integer of absolute value up to \<open>2 ^ 53\<close> is a float, so
  the rounding leaves it as it is. The comparison with the float \<open>0.7\<close> is written with
  the rational \<open>7 / 10\<close>: no float lies between the two, so both comparisons agree on
  every float. A cell is \<open>(x0, top, x1, bottom)\<close>.
\<close>

type_synonym cell = "rat \<times> rat \<times> rat \<times> rat"

text \<open>
  \<open>non_stroking_color\<close> of a pdfplumber rectangle: \<open>None\<close>, a number, or something else
  (a tuple of components).
\<close>

datatype color = NoColor | Number rat | Components "rat list"

record pdf_rect =
  fill :: bool
  non_stroking_color :: color
  rect_x0 :: rat
  rect_top :: rat
  rect_x1 :: rat
  rect_bottom :: rat

record filled_rect =
  fx0 :: rat
  ftop :: rat
  fx1 :: rat
  fbottom :: rat
  fcolor :: rat

fun extract_filled_rects :: "pdf_rect list \<Rightarrow> filled_rect list" where
  "extract_filled_rects [] = []"
| "extract_filled_rects (rect # rects) =
     (if \<not> fill rect then extract_filled_rects rects
      else case non_stroking_color rect of
             NoColor \<Rightarrow> extract_filled_rects rects
           | Number c \<Rightarrow>
               (if 7 / 10 < c \<and> c < 1
                then \<lparr>fx0 = rect_x0 rect, ftop = rect_top rect, fx1 = rect_x1 rect,
                      fbottom = rect_bottom rect, fcolor = c\<rparr> # extract_filled_rects rects
                else extract_filled_rects rects)
           | Components cs \<Rightarrow> extract_filled_rects rects)"

definition tolerance :: rat where
  "tolerance = 5"

definition covers :: "(rat \<Rightarrow> rat) \<Rightarrow> filled_rect \<Rightarrow> cell \<Rightarrow> bool" where
  "covers fl rect c =
     (let (cx0, ctop, cx1, cbottom) = c
      in fx0 rect \<le> fl (cx0 + tolerance) \<and> fx1 rect \<ge> fl (cx1 - tolerance)
         \<and> ftop rect \<le> fl (ctop + tolerance) \<and> fbottom rect \<ge> fl (cbottom - tolerance))"

text \<open>
  The body of the loop over the rows: \<open>cell_idx = r_idx * col_count\<close> is taken for the
  index of the first cell of row \<open>r_idx\<close> in the list of the table's cells.
\<close>

definition row_background ::
  "(rat \<Rightarrow> rat) \<Rightarrow> cell list \<Rightarrow> nat \<Rightarrow> filled_rect list \<Rightarrow> nat \<Rightarrow> bool" where
  "row_background fl cells col_count filled_rects r_idx =
     (let cell_idx = r_idx * col_count
      in if cell_idx \<ge> length cells then False
         else list_ex (\<lambda>rect. covers fl rect (cells ! cell_idx)) filled_rects)"

definition analyze_row_backgrounds ::
  "(rat \<Rightarrow> rat) \<Rightarrow> cell list \<Rightarrow> ustr list list \<Rightarrow> nat \<Rightarrow> filled_rect list \<Rightarrow> bool list" where
  "analyze_row_backgrounds fl cells rows col_count filled_rects =
     map (row_background fl cells col_count filled_rects) [0..<length rows]"

text \<open>
  \<open>round(x, 0)\<close> on a float: the nearest integer, a tie going to the even one. The
  result is a float with an integer value; it is an \<open>int\<close> here.
\<close>

definition py_round :: "rat \<Rightarrow> int" where
  "py_round x =
     (let f = \<lfloor>x\<rfloor>; d = x - of_int f
      in if d < 1 / 2 then f
         else if d > 1 / 2 then f + 1
         else if even f then f else f + 1)"

text \<open>\<open>list.index\<close>: the first position of the value, \<open>None\<close> for \<open>ValueError\<close>.\<close>

fun index_of :: "'a list \<Rightarrow> 'a \<Rightarrow> nat option" where
  "index_of [] v = None"
| "index_of (x # xs) v = (if x = v then Some 0 else map_option Suc (index_of xs v))"

record merge =
  row :: nat
  col :: nat
  colspan :: int
  rowspan :: int

definition x_coords :: "cell list \<Rightarrow> int list" where
  "x_coords cells =
     sort (remdups (map (\<lambda>(x0, top, x1, bottom). py_round x0) cells
                    @ map (\<lambda>(x0, top, x1, bottom). py_round x1) cells))"

definition y_coords :: "cell list \<Rightarrow> int list" where
  "y_coords cells =
     sort (remdups (map (\<lambda>(x0, top, x1, bottom). py_round top) cells
                    @ map (\<lambda>(x0, top, x1, bottom). py_round bottom) cells))"

text \<open>The body of the loop \<open>for cell in cells\<close>: the merges one cell adds.\<close>

definition cell_merge :: "int list \<Rightarrow> int list \<Rightarrow> nat \<Rightarrow> cell \<Rightarrow> merge list" where
  "cell_merge xs ys nrows c =
     (let (x0, top, x1, bottom) = c
      in case (index_of xs (py_round x0), index_of xs (py_round x1),
               index_of ys (py_round top), index_of ys (py_round bottom)) of
           (Some start_col, Some end_col, Some start_row, Some end_row) \<Rightarrow>
             (let cspan = int end_col - int start_col;
                  rspan = int end_row - int start_row
              in if cspan > 1 \<or> rspan > 1
                 then (if start_row < nrows
                       then [\<lparr>row = start_row, col = start_col, colspan = cspan, rowspan = rspan\<rparr>]
                       else [])
                 else [])
         | _ \<Rightarrow> [])"

definition analyze_merged_cells :: "cell list \<Rightarrow> ustr list list \<Rightarrow> nat \<Rightarrow> merge list" where
  "analyze_merged_cells cells rows col_count =
     (if rows = [] \<or> col_count = 0 then []
      else if cells = [] then []
      else let xs = x_coords cells; ys = y_coords cells
           in if length xs < 2 \<or> length ys < 2 then []
              else concat (map (cell_merge xs ys (length rows)) cells))"

text \<open>
  The shading flags as the specification words them, for comparison. The leading cell
  of row \<open>r\<close> is the cell of the table whose top-left corner lies on column edge 0 and
  on row edge \<open>r\<close> of the resolved grid. The row is shaded when some filled rectangle of
  the page whose fill intensity is a number strictly between the bounds \<open>black\<close> and
  \<open>white\<close> contains the boundary of that cell, within the tolerance; a row without a
  leading cell is not shaded.
\<close>

definition spec_leading_cell :: "cell list \<Rightarrow> nat \<Rightarrow> cell option" where
  "spec_leading_cell cells r =
     List.find (\<lambda>(x0, top, x1, bottom).
                  index_of (x_coords cells) (py_round x0) = Some 0
                  \<and> index_of (y_coords cells) (py_round top) = Some r)
               cells"

definition spec_contains :: "rat \<Rightarrow> pdf_rect \<Rightarrow> cell \<Rightarrow> bool" where
  "spec_contains tol rect c =
     (let (cx0, ctop, cx1, cbottom) = c
      in rect_x0 rect - tol \<le> cx0 \<and> cx1 \<le> rect_x1 rect + tol
         \<and> rect_top rect - tol \<le> ctop \<and> cbottom \<le> rect_bottom rect + tol)"

definition spec_row_shaded ::
  "rat \<Rightarrow> rat \<Rightarrow> rat \<Rightarrow> pdf_rect list \<Rightarrow> cell list \<Rightarrow> nat \<Rightarrow> bool" where
  "spec_row_shaded black white tol rects cells r =
     (case spec_leading_cell cells r of
        None \<Rightarrow> False
      | Some c \<Rightarrow>
          list_ex (\<lambda>rect. fill rect
                     \<and> (case non_stroking_color rect of
                          Number k \<Rightarrow> black < k \<and> k < white
                        | _ \<Rightarrow> False)
                     \<and> spec_contains tol rect c)
                  rects)"

section \<open>Materialisation (tools/translate_pdf_range.py, insert_tables_to_template)\<close>

text \<open>
  One entry of \<open>translated_tables\<close>, and the destination table: a grid of \<open>w:tc\<close>
  elements, each with its text, its shading fill, its \<open>w:gridSpan\<close> value and its
  \<open>w:vMerge\<close> element. A \<open>w:vMerge\<close> with \<open>w:val="restart"\<close> is \<open>Restart\<close>, one
  without a value is \<open>Continue\<close>.
\<close>

record table_data =
  page :: nat
  rows :: "ustr list list"
  col_count :: nat
  merge_info :: "merge list"
  row_backgrounds :: "bool list"

datatype vmerge = Restart | Continue

record tc =
  tc_text :: ustr
  shd :: "string option"
  gridSpan :: "int option"
  vMerge :: "vmerge option"

type_synonym docx_table = "tc list list"

text \<open>\<open>doc.add_table(rows=len(rows), cols=col_count)\<close>: a grid of empty cells.\<close>

definition add_table :: "nat \<Rightarrow> nat \<Rightarrow> docx_table" where
  "add_table nrows ncols =
     replicate nrows (replicate ncols \<lparr>tc_text = [], shd = None, gridSpan = None, vMerge = None\<rparr>)"

text \<open>The set \<open>merged_cells\<close>: every position a span covers, its origin left out.\<close>

definition span_shadow :: "merge \<Rightarrow> (nat \<times> nat) list" where
  "span_shadow m =
     concat (map (\<lambda>dr. concat (map (\<lambda>dc. if dr > 0 \<or> dc > 0 then [(row m + dr, col m + dc)] else [])
                                    [0..<nat (colspan m)]))
                 [0..<nat (rowspan m)])"

definition merged_cells_of :: "merge list \<Rightarrow> (nat \<times> nat) set" where
  "merged_cells_of ms = set (concat (map span_shadow ms))"

text \<open>The loops that fill in the data: \<open>cell.text = cell_text or ""\<close>, then the shading.\<close>

definition set_cell :: "bool \<Rightarrow> ustr \<Rightarrow> tc \<Rightarrow> tc" where
  "set_cell needs_gray_bg cell_text c =
     (let c' = c\<lparr>tc_text := cell_text\<rparr>
      in if needs_gray_bg then c'\<lparr>shd := Some ''D9D9D9''\<rparr> else c')"

definition fill_row :: "bool \<Rightarrow> ustr list \<Rightarrow> tc list \<Rightarrow> tc list" where
  "fill_row needs_gray_bg cells tc_list =
     fold (\<lambda>(c_idx, cell_text) tcs.
             if c_idx \<ge> length tcs then tcs
             else tcs[c_idx := set_cell needs_gray_bg cell_text (tcs ! c_idx)])
          (List.enumerate 0 cells) tc_list"

definition fill_table :: "ustr list list \<Rightarrow> bool list \<Rightarrow> docx_table \<Rightarrow> docx_table" where
  "fill_table rs backgrounds tbl =
     fold (\<lambda>(r_idx, cells) t.
             if r_idx \<ge> length t then t
             else let needs_gray_bg = (if r_idx < length backgrounds then backgrounds ! r_idx else False)
                  in t[r_idx := fill_row needs_gray_bg cells (t ! r_idx)])
          (List.enumerate 0 rs) tbl"

text \<open>
  \<open>_apply_merge_to_table\<close>. \<open>merge_tc\<close> is what the body of the inner loop does to the
  cell it has found, \<open>merge_row\<close> is that body for one \<open>dr\<close>, \<open>apply_span\<close> the loop
  \<open>for dr in range(rowspan)\<close> and \<open>apply_merge_to_table\<close> the loop over \<open>merge_info\<close>.
\<close>

definition merge_tc :: "(nat \<times> nat) set \<Rightarrow> merge \<Rightarrow> nat \<Rightarrow> tc \<Rightarrow> tc" where
  "merge_tc merged_cells m dr c =
     (let c1 = (if (row m + dr, col m) \<in> merged_cells then c\<lparr>tc_text := []\<rparr> else c);
          c2 = (if colspan m > 1 then c1\<lparr>gridSpan := Some (colspan m)\<rparr> else c1)
      in if rowspan m > 1
         then c2\<lparr>vMerge := Some (if dr = 0 then Restart else Continue)\<rparr>
         else c2)"

definition merge_row :: "(nat \<times> nat) set \<Rightarrow> merge \<Rightarrow> nat \<Rightarrow> docx_table \<Rightarrow> docx_table" where
  "merge_row merged_cells m dr tbl =
     (let row_idx = row m + dr
      in if row_idx \<ge> length tbl then tbl
         else let tc_list = tbl ! row_idx; col_idx = col m
              in if col_idx \<ge> length tc_list then tbl
                 else tbl[row_idx := tc_list[col_idx := merge_tc merged_cells m dr (tc_list ! col_idx)]])"

definition apply_span :: "(nat \<times> nat) set \<Rightarrow> merge \<Rightarrow> docx_table \<Rightarrow> docx_table" where
  "apply_span merged_cells m tbl = fold (merge_row merged_cells m) [0..<nat (rowspan m)] tbl"

definition apply_merge_to_table :: "docx_table \<Rightarrow> merge list \<Rightarrow> (nat \<times> nat) set \<Rightarrow> docx_table" where
  "apply_merge_to_table tbl ms merged_cells = fold (apply_span merged_cells) ms tbl"

text \<open>
  The body of the loop over \<open>translated_tables\<close> for a table with rows, and the loop
  itself: the tables emitted, in order (a table without rows is skipped).
\<close>

definition materialize :: "table_data \<Rightarrow> docx_table" where
  "materialize td =
     (let new_table = add_table (length (rows td)) (col_count td);
          merged_cells = merged_cells_of (merge_info td);
          filled = fill_table (rows td) (row_backgrounds td) new_table
      in apply_merge_to_table filled (merge_info td) merged_cells)"

definition insert_tables_to_template :: "table_data list \<Rightarrow> docx_table list" where
  "insert_tables_to_template translated_tables =
     map materialize (filter (\<lambda>td. rows td \<noteq> []) translated_tables)"

text \<open>The text at a position of a table, when the table has that position.\<close>

definition text_at :: "docx_table \<Rightarrow> nat \<Rightarrow> nat \<Rightarrow> ustr option" where
  "text_at tbl r c =
     (if r < length tbl \<and> c < length (tbl ! r) then Some (tc_text (tbl ! r ! c)) else None)"

section \<open>Auxiliary notions used in the statements\<close>

text \<open>The first position of a list whose element satisfies a predicate.\<close>

fun first_index :: "('a \<Rightarrow> bool) \<Rightarrow> 'a list \<Rightarrow> nat option" where
  "first_index P [] = None"
| "first_index P (x # xs) = (if P x then Some 0 else map_option Suc (first_index P xs))"

definition seen_start :: "nat option \<Rightarrow> nat \<Rightarrow> nat option \<Rightarrow> nat option" where
  "seen_start sp i found = (case sp of Some s \<Rightarrow> Some s | None \<Rightarrow> map_option ((+) i) found)"

text \<open>
  For the first loop of \<open>translate_batch\<close>: an item is \<open>uncached\<close> when it is eligible and
  its trimmed text is not a key of the cache; \<open>first_pass\<close> is the value its slot has after
  the loop; \<open>pending\<close> lists the uncached items with their positions.
\<close>

definition uncached :: "(nat \<Rightarrow> bool) \<Rightarrow> (ustr \<rightharpoonup> ustr) \<Rightarrow> ustr \<Rightarrow> bool" where
  "uncached dec c t = (should_translate dec t \<and> c (py_strip t) = None)"

definition first_pass :: "(nat \<Rightarrow> bool) \<Rightarrow> (ustr \<rightharpoonup> ustr) \<Rightarrow> ustr \<Rightarrow> ustr" where
  "first_pass dec c t =
     (if should_translate dec t then (case c (py_strip t) of Some v \<Rightarrow> v | None \<Rightarrow> t) else t)"

definition pending :: "(nat \<Rightarrow> bool) \<Rightarrow> (ustr \<rightharpoonup> ustr) \<Rightarrow> ustr list \<Rightarrow> (nat \<times> ustr) list" where
  "pending dec c texts = filter (\<lambda>(i, t). uncached dec c t) (List.enumerate 0 texts)"

section \<open>The pool with several workers\<close>

text \<open>
  \<open>run_pool\<close> above runs the tasks of a batch one after another. With \<open>max_workers\<close>
  threads the tasks interleave at the points where \<open>translate\<close> gives up the cache lock:
  a task looks its trimmed text up under the lock; on a miss it releases the lock and
  sends its request; when the answer is there it takes the lock again and stores the
  result. A task is \<open>Queued\<close> (submitted, not yet taken by a worker), \<open>Waiting\<close> (its
  lookup missed and its request is with the backend; the second field is the log of
  requests sent before it) or \<open>Finished\<close> with its result. \<open>advance E max_workers j\<close> lets
  task \<open>j\<close> take its next step, when it can: a queued task starts only when every task
  submitted before it has started and a worker is free. A schedule is the list of task
  numbers in the order in which the steps happen, and \<open>run_schedule\<close> runs it.
  \<open>pool_start\<close> is the pool when the tasks of \<open>to_translate\<close> have been submitted;
  \<open>pool_of\<close> is the pool in which the first tasks have finished with the given results
  and the rest are queued.
\<close>

datatype task = Queued ustr | Waiting ustr "ustr list" | Finished ustr

record pool =
  pool_cache :: "ustr \<rightharpoonup> ustr"
  pool_calls :: "ustr list"
  tasks :: "task list"

fun is_queued :: "task \<Rightarrow> bool" where
  "is_queued (Queued t) = True"
| "is_queued _ = False"

fun is_waiting :: "task \<Rightarrow> bool" where
  "is_waiting (Waiting t sent) = True"
| "is_waiting _ = False"

definition pool_start :: "translator \<Rightarrow> ustr list \<Rightarrow> pool" where
  "pool_start self to_translate =
     \<lparr>pool_cache = cache self, pool_calls = calls self, tasks = map Queued to_translate\<rparr>"

definition advance :: "env \<Rightarrow> nat \<Rightarrow> nat \<Rightarrow> pool \<Rightarrow> pool" where
  "advance E max_workers j P =
     (if j \<ge> length (tasks P) then P
      else case tasks P ! j of
             Queued t \<Rightarrow>
               (if list_ex is_queued (take j (tasks P))
                   \<or> length (filter is_waiting (tasks P)) \<ge> max_workers then P
                else if \<not> should_translate (decimal E) t
                then P\<lparr>tasks := (tasks P)[j := Finished t]\<rparr>
                else case pool_cache P (py_strip t) of
                       Some v \<Rightarrow> P\<lparr>tasks := (tasks P)[j := Finished v]\<rparr>
                     | None \<Rightarrow> P\<lparr>pool_calls := pool_calls P @ [t],
                                  tasks := (tasks P)[j := Waiting t (pool_calls P)]\<rparr>)
           | Waiting t sent \<Rightarrow>
               (case upstream E sent t of
                  Some content \<Rightarrow>
                    P\<lparr>pool_cache := (pool_cache P)(py_strip t \<mapsto> py_strip content),
                      tasks := (tasks P)[j := Finished (py_strip content)]\<rparr>
                | None \<Rightarrow> P\<lparr>tasks := (tasks P)[j := Finished t]\<rparr>)
           | Finished r \<Rightarrow> P)"

definition run_schedule :: "env \<Rightarrow> nat \<Rightarrow> nat list \<Rightarrow> pool \<Rightarrow> pool" where
  "run_schedule E max_workers schedule P = fold (advance E max_workers) schedule P"

definition pool_of :: "translator \<Rightarrow> ustr list \<Rightarrow> ustr list \<Rightarrow> pool" where
  "pool_of s finished_results rest =
     \<lparr>pool_cache = cache s, pool_calls = calls s,
      tasks = map Finished finished_results @ map Queued rest\<rparr>"










section \<open>Properties of the range detector\<close>

lemma first_index_None: "(first_index P xs = None) = (\<forall>x\<in>set xs. \<not> P x)"
  by (induction xs) auto

lemma first_index_Some:
  "(first_index P xs = Some j) = (j < length xs \<and> P (xs ! j) \<and> (\<forall>k<j. \<not> P (xs ! k)))"
proof (induction xs arbitrary: j)
  case Nil
  then show ?case by simp
next
  case (Cons x xs)
  show ?case
  proof (cases "P x")
    case True
    then show ?thesis by (cases j) auto
  next
    case False
    show ?thesis
    proof (cases j)
      case 0
      with False show ?thesis by simp
    next
      case (Suc j')
      have "(\<forall>k<Suc j'. \<not> P ((x # xs) ! k)) = (\<forall>k<j'. \<not> P (xs ! k))"
        using False by (auto simp: less_Suc_eq_0_disj)
      with False Suc Cons.IH [of j'] show ?thesis by auto
    qed
  qed
qed

lemma plus_Suc_fun: "(+) (Suc i) = (\<lambda>x. Suc (i + x))"
  by (rule ext) simp

lemma scan_pages_eq:
  "i + length ps = n \<Longrightarrow>
   scan_pages ps n i sp n =
     (case first_index has_end ps of
        None \<Rightarrow> (seen_start sp i (first_index has_start ps), n)
      | Some j \<Rightarrow> (seen_start sp i (first_index has_start (take (Suc j) ps)), i + j))"
proof (induction ps arbitrary: i sp)
  case Nil
  then show ?case by (simp add: seen_start_def split: option.splits)
next
  case (Cons p ps)
  have n: "Suc i + length ps = n" using Cons.prems by simp
  show ?case
  proof (cases "has_end p")
    case True
    then show ?thesis using Cons.prems
      by (auto simp: seen_start_def Let_def split: option.splits)
  next
    case False
    then show ?thesis using Cons.IH [OF n]
      by (auto simp: seen_start_def Let_def option.map_comp comp_def plus_Suc_fun split: option.splits)
  qed
qed

lemma find_translation_range_eq:
  "find_translation_range pages =
     (case first_index has_end pages of
        None \<Rightarrow> (case first_index has_start pages of None \<Rightarrow> 0 | Some s \<Rightarrow> s, length pages)
      | Some j \<Rightarrow> (case first_index has_start (take (Suc j) pages) of None \<Rightarrow> 0 | Some s \<Rightarrow> s, j))"
  using scan_pages_eq [of 0 pages "length pages" None]
  by (simp add: find_translation_range_def seen_start_def option.map_ident split: option.splits)

lemma range_hi:
  assumes "find_translation_range pages = (lo, hi)"
  shows "hi \<le> length pages \<and> (\<forall>j<hi. \<not> has_end (pages ! j))
         \<and> (hi < length pages \<longrightarrow> has_end (pages ! hi))"
proof (cases "first_index has_end pages")
  case None
  then have "hi = length pages" using assms by (simp add: find_translation_range_eq)
  moreover have "\<forall>p\<in>set pages. \<not> has_end p" using None by (simp add: first_index_None)
  ultimately show ?thesis by simp
next
  case (Some j)
  then have "hi = j" using assms by (simp add: find_translation_range_eq)
  then show ?thesis using Some by (simp add: first_index_Some)
qed

lemma range_lo:
  assumes "find_translation_range pages = (lo, hi)"
  shows "if \<exists>i<length pages. i \<le> hi \<and> has_start (pages ! i)
         then lo < length pages \<and> lo \<le> hi \<and> has_start (pages ! lo) \<and> (\<forall>i<lo. \<not> has_start (pages ! i))
         else lo = 0"
proof (cases "first_index has_end pages")
  case None
  then have hi: "hi = length pages" and lo: "lo = (case first_index has_start pages of None \<Rightarrow> 0 | Some s \<Rightarrow> s)"
    using assms by (simp_all add: find_translation_range_eq)
  show ?thesis
  proof (cases "first_index has_start pages")
    case None
    then have "\<forall>p\<in>set pages. \<not> has_start p" by (simp add: first_index_None)
    then show ?thesis using lo None by auto
  next
    case (Some s)
    have ls: "lo = s" using lo Some by simp
    have "s < length pages \<and> has_start (pages ! s) \<and> (\<forall>k<s. \<not> has_start (pages ! k))"
      using Some by (simp add: first_index_Some)
    then have p: "lo < length pages \<and> lo \<le> hi \<and> has_start (pages ! lo) \<and> (\<forall>i<lo. \<not> has_start (pages ! i))"
      using ls hi by simp
    then have "\<exists>i<length pages. i \<le> hi \<and> has_start (pages ! i)" by blast
    then show ?thesis using p by simp
  qed
next
  case (Some j)
  then have hi: "hi = j" and lo: "lo = (case first_index has_start (take (Suc j) pages) of None \<Rightarrow> 0 | Some s \<Rightarrow> s)"
    using assms by (auto simp: find_translation_range_eq)
  have j: "j < length pages" using Some by (simp add: first_index_Some)
  show ?thesis
  proof (cases "first_index has_start (take (Suc j) pages)")
    case None
    then have "\<forall>p\<in>set (take (Suc j) pages). \<not> has_start p" by (simp add: first_index_None)
    then have "\<forall>i<Suc j. \<not> has_start (pages ! i)"
      using j by (auto simp: set_conv_nth)
    then show ?thesis using lo None hi by (auto simp: less_Suc_eq_le)
  next
    case (Some s)
    have ls: "lo = s" using lo Some by simp
    have "s < Suc j \<and> has_start (pages ! s) \<and> (\<forall>k<s. \<not> has_start (pages ! k))"
      using j Some by (auto simp: first_index_Some)
    then have p: "lo < length pages \<and> lo \<le> hi \<and> has_start (pages ! lo) \<and> (\<forall>i<lo. \<not> has_start (pages ! i))"
      using ls hi j by simp
    then have "\<exists>i<length pages. i \<le> hi \<and> has_start (pages ! i)" by blast
    then show ?thesis using p by simp
  qed
qed


lemma marker_pages:
  "has_start (Some (ustr_of ''OVERVIEW OF ENERGY SOURCES AND SAFEGUARDS''))"
  "\<not> has_end (Some (ustr_of ''OVERVIEW OF ENERGY SOURCES AND SAFEGUARDS''))"
  "has_end (Some (ustr_of ''ATTACHMENT TO TEST REPORT''))"
  "\<not> has_start (Some (ustr_of ''ATTACHMENT TO TEST REPORT''))"
  "\<not> has_start None" "\<not> has_end None"
  "\<not> has_start (Some [])" "\<not> has_end (Some [])"
  by (simp_all add: has_start_def has_end_def page_text_def START_MARKER_def END_MARKERS_def
      ustr_of_def)

text \<open>
  C2, as stated, fails.
  Take two pages, the first containing an end marker and the second the start marker.
  The claim gives the bounds (1, 2): the first page with the start marker is page 1, and
  the end marker of page 0, before it, is ignored. The code returns (0, 0): it tests every
  page it scans for an end marker, whether or not the start marker has been seen.
\<close>

theorem range_end_before_start_counterexample:
  "find_translation_range
     [Some (ustr_of ''ATTACHMENT TO TEST REPORT''),
      Some (ustr_of ''OVERVIEW OF ENERGY SOURCES AND SAFEGUARDS'')] = (0, 0)
   \<and> spec_range
     [Some (ustr_of ''ATTACHMENT TO TEST REPORT''),
      Some (ustr_of ''OVERVIEW OF ENERGY SOURCES AND SAFEGUARDS'')] = (1, 2)"
  by (simp add: find_translation_range_def spec_range_def marker_pages)

text \<open>
  C2, amended.
  For every page sequence the bounds (lo, hi) returned are these: hi is the index of the
  first page that contains an end marker, whether or not the start marker has been
  matched by then, and the page count when no page contains one; lo is the index of the
  first page that contains the start marker whenever that page is not after page hi, and
  0 when no page contains the start marker. In particular, for pages [a, b, c, d] with
  the start marker on b only and an end marker on d only the result is (1, 3), and with
  no marker on any page it is (0, page count).
\<close>

theorem find_translation_range_bounds:
  "(find_translation_range pages = (lo, hi) \<longrightarrow>
      hi \<le> length pages \<and> (\<forall>j<hi. \<not> has_end (pages ! j))
      \<and> (hi < length pages \<longrightarrow> has_end (pages ! hi))
      \<and> ((\<exists>i<length pages. i \<le> hi \<and> has_start (pages ! i))
           \<longrightarrow> lo < length pages \<and> lo \<le> hi \<and> has_start (pages ! lo)
               \<and> (\<forall>i<lo. \<not> has_start (pages ! i)))
      \<and> ((\<forall>p\<in>set pages. \<not> has_start p) \<longrightarrow> lo = 0))
   \<and> (\<not> has_start a \<and> has_start b \<and> \<not> has_end a \<and> \<not> has_end b \<and> \<not> has_end c \<and> has_end d
        \<longrightarrow> find_translation_range [a, b, c, d] = (1, 3))
   \<and> ((\<forall>p\<in>set pages'. \<not> has_start p \<and> \<not> has_end p)
        \<longrightarrow> find_translation_range pages' = (0, length pages'))"
proof (intro conjI impI)
  assume r: "find_translation_range pages = (lo, hi)"
  show "hi \<le> length pages" using range_hi [OF r] by simp
  show "\<forall>j<hi. \<not> has_end (pages ! j)" using range_hi [OF r] by simp
  {
    assume "hi < length pages"
    then show "has_end (pages ! hi)" using range_hi [OF r] by simp
  }
  {
    assume e: "\<exists>i<length pages. i \<le> hi \<and> has_start (pages ! i)"
    from range_lo [OF r] e
    have l: "lo < length pages \<and> lo \<le> hi \<and> has_start (pages ! lo)
             \<and> (\<forall>i<lo. \<not> has_start (pages ! i))"
      by (simp split: if_splits)
    show "lo < length pages" using l by simp
    show "lo \<le> hi" using l by simp
    show "has_start (pages ! lo)" using l by simp
    show "\<forall>i<lo. \<not> has_start (pages ! i)" using l by simp
  }
  {
    assume n: "\<forall>p\<in>set pages. \<not> has_start p"
    then have "\<not> (\<exists>i<length pages. i \<le> hi \<and> has_start (pages ! i))" by auto
    with range_lo [OF r] show "lo = 0" by (simp split: if_splits)
  }
next
  assume "\<not> has_start a \<and> has_start b \<and> \<not> has_end a \<and> \<not> has_end b \<and> \<not> has_end c \<and> has_end d"
  then show "find_translation_range [a, b, c, d] = (1, 3)"
    by (simp add: find_translation_range_def)
next
  assume n: "\<forall>p\<in>set pages'. \<not> has_start p \<and> \<not> has_end p"
  then have "first_index has_end pages' = None" "first_index has_start pages' = None"
    by (simp_all add: first_index_None)
  then show "find_translation_range pages' = (0, length pages')"
    by (simp add: find_translation_range_eq)
qed

theorem find_translation_range_bounds_witness:
  "find_translation_range
     [None, Some (ustr_of ''OVERVIEW OF ENERGY SOURCES AND SAFEGUARDS''), Some [],
      Some (ustr_of ''ATTACHMENT TO TEST REPORT'')] = (1, 3)
   \<and> has_start ([None, Some (ustr_of ''OVERVIEW OF ENERGY SOURCES AND SAFEGUARDS''), Some [],
      Some (ustr_of ''ATTACHMENT TO TEST REPORT'')] ! 1)
   \<and> has_end ([None, Some (ustr_of ''OVERVIEW OF ENERGY SOURCES AND SAFEGUARDS''), Some [],
      Some (ustr_of ''ATTACHMENT TO TEST REPORT'')] ! 3)
   \<and> find_translation_range [None, Some []] = (0, 2)"
  using find_translation_range_bounds
    [of "[None, Some (ustr_of ''OVERVIEW OF ENERGY SOURCES AND SAFEGUARDS''), Some [],
          Some (ustr_of ''ATTACHMENT TO TEST REPORT'')]" 1 3
        None "Some (ustr_of ''OVERVIEW OF ENERGY SOURCES AND SAFEGUARDS'')" "Some []"
        "Some (ustr_of ''ATTACHMENT TO TEST REPORT'')" "[None, Some []]"]
  by (simp add: marker_pages)

section \<open>Properties of the eligibility filter\<close>

lemma ascii_digitsD: "ascii_digits dec \<Longrightarrow> c < 128 \<Longrightarrow> dec c = (0x30 \<le> c \<and> c \<le> 0x39)"
  by (simp add: ascii_digits_def)

lemma ascii_digits_ascii_dec: "ascii_digits ascii_dec"
  by (simp add: ascii_digits_def ascii_dec_def)

lemma no_nonspace_strip:
  assumes "length (filter (\<lambda>c. \<not> is_space c) text) = 0"
  shows "py_strip text = []"
proof -
  have "filter (\<lambda>c. \<not> is_space c) text = []" using assms by simp
  then have "\<forall>c\<in>set text. is_space c" by (simp add: filter_empty_conv)
  then show ?thesis by (auto simp: py_strip_def dest: set_dropWhileD)
qed

lemma should_translate_iff:
  "should_translate dec text =
     (\<not> (text = [] \<or> length (py_strip text) < 3
         \<or> 10 * length (filter is_cjk text) > 3 * length (filter (\<lambda>c. \<not> is_space c) text)
         \<or> numeric_pattern dec text
         \<or> standard_pattern dec (py_strip text)))"
proof (cases "length (filter (\<lambda>c. \<not> is_space c) text) = 0")
  case True
  then have "py_strip text = []" by (rule no_nonspace_strip)
  then show ?thesis by (simp add: should_translate_def)
next
  case False
  then show ?thesis by (auto simp: should_translate_def is_chinese_def Let_def)
qed

lemma ex_IEC:
  assumes "ascii_digits dec"
  shows "\<not> should_translate dec (ustr_of ''IEC 62368-1'')"
  by (simp add: should_translate_def ustr_of_def py_strip_def is_space_def is_chinese_def is_cjk_def
      numeric_pattern_def standard_pattern_def numeric_class_def code_tail_class_def is_upper_AZ_def at_end_def
      ascii_digitsD [OF assms])

lemma ex_PASS:
  assumes "ascii_digits dec"
  shows "should_translate dec (ustr_of ''PASS'')"
  by (simp add: should_translate_def ustr_of_def py_strip_def is_space_def is_chinese_def is_cjk_def
      numeric_pattern_def standard_pattern_def numeric_class_def code_tail_class_def is_upper_AZ_def at_end_def
      ascii_digitsD [OF assms])

lemma ex_220V:
  assumes "ascii_digits dec"
  shows "should_translate dec (ustr_of ''220V '' @ [0xB1] @ ustr_of ''10%'')"
  by (simp add: should_translate_def ustr_of_def py_strip_def is_space_def is_chinese_def is_cjk_def
      numeric_pattern_def standard_pattern_def numeric_class_def code_tail_class_def is_upper_AZ_def at_end_def
      ascii_digitsD [OF assms])

lemma ex_cjk: "\<not> should_translate dec [0x901A, 0x904E]"
  by (simp add: should_translate_def py_strip_def is_space_def)


text \<open>
  C3, as stated, fails.
  The claim counts the text "220V", a space, the plus-minus sign U+00B1, "10%" among the
  texts that are not eligible. The character class of the numeric pattern has neither the
  letter V nor U+00B1, the standards pattern wants a capital letter first, the text has
  no CJK character and its trimmed length is 9: the code finds it eligible. (The digit
  table here is the ASCII one; the next theorem has the same for every table that agrees
  with it on ASCII.)
\<close>

theorem should_translate_220V_counterexample:
  "should_translate ascii_dec (ustr_of ''220V '' @ [0xB1] @ ustr_of ''10%'')"
  by (rule ex_220V [OF ascii_digits_ascii_dec])

text \<open>
  C3, amended.
  \<open>should_translate\<close> returns false exactly when the text is empty or its trimmed length
  is below 3, or the CJK characters are more than 0.3 of the characters that are not white
  space, or the text matches the numeric pattern, or the trimmed text matches the
  standards pattern; it returns true for every other text. In particular "IEC 62368-1"
  and the two CJK characters U+901A U+904E are not eligible, while "PASS" is eligible,
  and so is "220V", space, U+00B1, "10%".
\<close>

theorem should_translate_characterised:
  "should_translate dec text =
     (\<not> (text = [] \<or> length (py_strip text) < 3
         \<or> 10 * length (filter is_cjk text) > 3 * length (filter (\<lambda>c. \<not> is_space c) text)
         \<or> numeric_pattern dec text
         \<or> standard_pattern dec (py_strip text)))
   \<and> (ascii_digits dec \<longrightarrow>
        \<not> should_translate dec (ustr_of ''IEC 62368-1'')
        \<and> \<not> should_translate dec [0x901A, 0x904E]
        \<and> should_translate dec (ustr_of ''PASS'')
        \<and> should_translate dec (ustr_of ''220V '' @ [0xB1] @ ustr_of ''10%''))"
  using should_translate_iff [of dec "text"] ex_IEC [of dec] ex_cjk [of dec] ex_PASS [of dec]
    ex_220V [of dec]
  by blast

theorem should_translate_characterised_witness:
  "ascii_digits ascii_dec
   \<and> \<not> should_translate ascii_dec (ustr_of ''IEC 62368-1'')
   \<and> \<not> should_translate ascii_dec [0x901A, 0x904E]
   \<and> should_translate ascii_dec (ustr_of ''PASS'')
   \<and> should_translate ascii_dec (ustr_of ''220V '' @ [0xB1] @ ustr_of ''10%'')"
  using should_translate_characterised [of ascii_dec "[]"] ascii_digits_ascii_dec
  by blast

section \<open>Properties of the shading detector and the merge inferencer\<close>

lemma small_ints:
  assumes "\<forall>k::int. \<bar>k\<bar> \<le> 2 ^ 53 \<longrightarrow> fl (of_int k) = of_int k"
  shows "fl 5 = 5" "fl 15 = 15" "fl 25 = 25" "fl 35 = 35" "fl 45 = 45"
proof -
  have "fl (of_int k) = of_int k" if "\<bar>k\<bar> \<le> 45" for k :: int
  proof -
    have "\<bar>k\<bar> \<le> 2 ^ 53" using that by simp
    then show ?thesis using assms by blast
  qed
  from this [of 5] this [of 15] this [of 25] this [of 35] this [of 45]
  show "fl 5 = 5" "fl 15 = 15" "fl 25 = 25" "fl 35 = 35" "fl 45 = 45" by simp_all
qed

lemma py_round_grid:
  "py_round 0 = 0" "py_round 10 = 10" "py_round 20 = 20" "py_round 30 = 30" "py_round 40 = 40"
  by (simp_all add: py_round_def)

lemma syn_x: "x_coords [(0, 0, 30, 20), (30, 0, 40, 10), (30, 10, 40, 20),
         (0, 20, 10, 30), (10, 20, 20, 30), (20, 20, 30, 30), (30, 20, 40, 30)] = [0, 10, 20, 30, 40]"
  by (simp add: x_coords_def py_round_grid)

lemma syn_y: "y_coords [(0, 0, 30, 20), (30, 0, 40, 10), (30, 10, 40, 20),
         (0, 20, 10, 30), (10, 20, 20, 30), (20, 20, 30, 30), (30, 20, 40, 30)] = [0, 10, 20, 30]"
  by (simp add: y_coords_def py_round_grid)

lemma code_flags:
  assumes "\<forall>k::int. \<bar>k\<bar> \<le> 2 ^ 53 \<longrightarrow> fl (of_int k) = of_int k"
  shows "analyze_row_backgrounds fl
     [(0, 0, 30, 20), (30, 0, 40, 10), (30, 10, 40, 20),
      (0, 20, 10, 30), (10, 20, 20, 30), (20, 20, 30, 30), (30, 20, 40, 30)]
     [[[], [], [], []], [[], [], [], []], [[], [], [], []]] 4
     (extract_filled_rects
        [\<lparr>fill = True, non_stroking_color = Number (9 / 10), rect_x0 = 0, rect_top = 20,
           rect_x1 = 40, rect_bottom = 30\<rparr>])
   = [False, True, False]"
  by (simp add: analyze_row_backgrounds_def row_background_def covers_def tolerance_def
      small_ints [OF assms] upt_rec)

lemma spec_flags:
  "black < 9 / 10 \<Longrightarrow> 9 / 10 < white \<Longrightarrow>
   map (spec_row_shaded black white 5
        [\<lparr>fill = True, non_stroking_color = Number (9 / 10), rect_x0 = 0, rect_top = 20,
           rect_x1 = 40, rect_bottom = 30\<rparr>]
        [(0, 0, 30, 20), (30, 0, 40, 10), (30, 10, 40, 20),
         (0, 20, 10, 30), (10, 20, 20, 30), (20, 20, 30, 30), (30, 20, 40, 30)])
       [0..<3]
   = [False, False, True]"
  by (simp add: spec_row_shaded_def spec_leading_cell_def spec_contains_def syn_x syn_y py_round_grid upt_rec)

text \<open>
  C7: the code tests the wrong cell on a table with a merged cell.
  The table has three rows and four columns and seven cells: the first cell spans
  columns 0 to 2 of rows 0 and 1. One grey rectangle (intensity 0.9) lies over the third
  row. The leading cell of row 2 is inside it and the leading cells of the other rows
  are not, so the flags of the claim are false, false, true, with the bounds 0.7 and 1.0
  of the source and with the bounds 0 and 1 alike. The code takes entry
  \<open>r * col_count\<close> of the cell list for the leading cell of row \<open>r\<close>: for row 1 that is
  entry 4, a cell of the third row, and for row 2 entry 8, which the list does not have.
  Its flags are false, true, false.
\<close>

theorem row_flags_misindexed:
  assumes "\<forall>k::int. \<bar>k\<bar> \<le> 2 ^ 53 \<longrightarrow> fl (of_int k) = of_int k"
  shows "analyze_row_backgrounds fl
     [(0, 0, 30, 20), (30, 0, 40, 10), (30, 10, 40, 20),
      (0, 20, 10, 30), (10, 20, 20, 30), (20, 20, 30, 30), (30, 20, 40, 30)]
     [[[], [], [], []], [[], [], [], []], [[], [], [], []]] 4
     (extract_filled_rects
        [\<lparr>fill = True, non_stroking_color = Number (9 / 10), rect_x0 = 0, rect_top = 20,
           rect_x1 = 40, rect_bottom = 30\<rparr>])
   = [False, True, False]
   \<and> map (spec_row_shaded (7 / 10) 1 5
        [\<lparr>fill = True, non_stroking_color = Number (9 / 10), rect_x0 = 0, rect_top = 20,
           rect_x1 = 40, rect_bottom = 30\<rparr>]
        [(0, 0, 30, 20), (30, 0, 40, 10), (30, 10, 40, 20),
      (0, 20, 10, 30), (10, 20, 20, 30), (20, 20, 30, 30), (30, 20, 40, 30)])
       [0..<3]
   = [False, False, True]
   \<and> map (spec_row_shaded 0 1 5
        [\<lparr>fill = True, non_stroking_color = Number (9 / 10), rect_x0 = 0, rect_top = 20,
           rect_x1 = 40, rect_bottom = 30\<rparr>]
        [(0, 0, 30, 20), (30, 0, 40, 10), (30, 10, 40, 20),
      (0, 20, 10, 30), (10, 20, 20, 30), (20, 20, 30, 30), (30, 20, 40, 30)])
       [0..<3]
   = [False, False, True]"
  using code_flags [OF assms] spec_flags [of "7 / 10" 1] spec_flags [of 0 1]
  by simp

theorem row_flags_misindexed_witness:
  "analyze_row_backgrounds (\<lambda>x. x)
     [(0, 0, 30, 20), (30, 0, 40, 10), (30, 10, 40, 20),
      (0, 20, 10, 30), (10, 20, 20, 30), (20, 20, 30, 30), (30, 20, 40, 30)]
     [[[], [], [], []], [[], [], [], []], [[], [], [], []]] 4
     (extract_filled_rects
        [\<lparr>fill = True, non_stroking_color = Number (9 / 10), rect_x0 = 0, rect_top = 20,
           rect_x1 = 40, rect_bottom = 30\<rparr>])
   = [False, True, False]
   \<and> map (spec_row_shaded (7 / 10) 1 5
        [\<lparr>fill = True, non_stroking_color = Number (9 / 10), rect_x0 = 0, rect_top = 20,
           rect_x1 = 40, rect_bottom = 30\<rparr>]
        [(0, 0, 30, 20), (30, 0, 40, 10), (30, 10, 40, 20),
      (0, 20, 10, 30), (10, 20, 20, 30), (20, 20, 30, 30), (30, 20, 40, 30)])
       [0..<3]
   = [False, False, True]"
  using row_flags_misindexed [of "\<lambda>x. x"]
  by simp

lemma cell_merge_props:
  "m \<in> set (cell_merge xs ys n c) \<Longrightarrow> (colspan m > 1 \<or> rowspan m > 1) \<and> row m < n"
  by (cases c) (auto simp: cell_merge_def Let_def split: option.splits if_splits)

lemma merged_props:
  "m \<in> set (analyze_merged_cells cells rs cc) \<Longrightarrow> (colspan m > 1 \<or> rowspan m > 1) \<and> row m < length rs"
  by (auto simp: analyze_merged_cells_def Let_def split: if_splits dest: cell_merge_props)

lemma x_coords_length:
  "length (x_coords cells) =
     card ((\<lambda>(x0, top, x1, bottom). py_round x0) ` set cells \<union> (\<lambda>(x0, top, x1, bottom). py_round x1) ` set cells)"
  by (simp add: x_coords_def length_remdups_card_conv)

lemma y_coords_length:
  "length (y_coords cells) =
     card ((\<lambda>(x0, top, x1, bottom). py_round top) ` set cells \<union> (\<lambda>(x0, top, x1, bottom). py_round bottom) ` set cells)"
  by (simp add: y_coords_def length_remdups_card_conv)

lemma merged_degenerate:
  "length (x_coords cells) < 2 \<or> length (y_coords cells) < 2 \<Longrightarrow> analyze_merged_cells cells rs cc = []"
  by (auto simp: analyze_merged_cells_def Let_def)

lemma py_round_int [simp]: "py_round (of_int k) = k"
  by (simp add: py_round_def)

lemma synthetic:
  "analyze_merged_cells
     [(0,0,30,20),(30,0,40,10),(30,10,40,20),(0,20,10,30),(10,20,20,30),(20,20,30,30),(30,20,40,30)]
     [[[],[],[],[]],[[],[],[],[]],[[],[],[],[]]] 4 = [\<lparr>row = 0, col = 0, colspan = 3, rowspan = 2\<rparr>]"
  by (simp add: analyze_merged_cells_def x_coords_def y_coords_def cell_merge_def py_round_def Let_def)


text \<open>
  C8.
  Every span in the merge set derived for a table has \<open>colspan > 1\<close> or \<open>rowspan > 1\<close>
  and an origin row below the number of extracted rows; the merge set is empty whenever
  the cells have fewer than 2 distinct rounded column edges or fewer than 2 distinct
  rounded row edges; and for a synthetic table of three rows and four columns in which
  one cell spans 3 columns and 2 rows at origin (0, 0) the merge set is exactly that one
  span.
\<close>

theorem analyze_merged_cells_spans:
  "(\<forall>m\<in>set (analyze_merged_cells cells rs cc).
       (colspan m > 1 \<or> rowspan m > 1) \<and> row m < length rs)
   \<and> (card ((\<lambda>(x0, top, x1, bottom). py_round x0) ` set cells
             \<union> (\<lambda>(x0, top, x1, bottom). py_round x1) ` set cells) < 2
       \<or> card ((\<lambda>(x0, top, x1, bottom). py_round top) ` set cells
             \<union> (\<lambda>(x0, top, x1, bottom). py_round bottom) ` set cells) < 2
       \<longrightarrow> analyze_merged_cells cells rs cc = [])
   \<and> analyze_merged_cells
        [(0, 0, 30, 20), (30, 0, 40, 10), (30, 10, 40, 20),
         (0, 20, 10, 30), (10, 20, 20, 30), (20, 20, 30, 30), (30, 20, 40, 30)]
        [[[], [], [], []], [[], [], [], []], [[], [], [], []]] 4
      = [\<lparr>row = 0, col = 0, colspan = 3, rowspan = 2\<rparr>]"
  using merged_props [of _ cells rs cc] merged_degenerate [of cells rs cc]
    x_coords_length [of cells] y_coords_length [of cells] synthetic
  by auto

theorem analyze_merged_cells_spans_witness:
  "analyze_merged_cells
        [(0, 0, 30, 20), (30, 0, 40, 10), (30, 10, 40, 20),
         (0, 20, 10, 30), (10, 20, 20, 30), (20, 20, 30, 30), (30, 20, 40, 30)]
        [[[], [], [], []], [[], [], [], []], [[], [], [], []]] 4
      = [\<lparr>row = 0, col = 0, colspan = 3, rowspan = 2\<rparr>]
   \<and> \<lparr>row = 0, col = 0, colspan = 3, rowspan = 2\<rparr>
       \<in> set (analyze_merged_cells
        [(0, 0, 30, 20), (30, 0, 40, 10), (30, 10, 40, 20),
         (0, 20, 10, 30), (10, 20, 20, 30), (20, 20, 30, 30), (30, 20, 40, 30)]
        [[[], [], [], []], [[], [], [], []], [[], [], [], []]] 4)
   \<and> card ((\<lambda>(x0, top, x1, bottom). py_round x0) ` set [(0, 0, 2 / 5, 10)]
             \<union> (\<lambda>(x0, top, x1, bottom). py_round x1) ` set [(0, 0, 2 / 5, 10)]) < 2
   \<and> analyze_merged_cells [(0, 0, 2 / 5, 10)] [[[]]] 1 = []"
proof -
  let ?syn = "[(0, 0, 30, 20), (30, 0, 40, 10), (30, 10, 40, 20),
         (0, 20, 10, 30), (10, 20, 20, 30), (20, 20, 30, 30), (30, 20, 40, 30)] :: cell list"
  let ?rs = "[[[], [], [], []], [[], [], [], []], [[], [], [], []]] :: ustr list list"
  have f: "\<lfloor>2 / 5 :: rat\<rfloor> = 0" by (rule floor_unique) simp_all
  have r: "py_round (2 / 5) = 0" "py_round 0 = 0" using f by (simp_all add: py_round_def Let_def)
  have c: "card ((\<lambda>(x0, top, x1, bottom). py_round x0) ` set [(0, 0, 2 / 5, 10 :: rat)]
             \<union> (\<lambda>(x0, top, x1, bottom). py_round x1) ` set [(0, 0, 2 / 5, 10)]) < 2"
    using r by simp
  note T1 = analyze_merged_cells_spans [of ?syn ?rs 4]
  note T2 = analyze_merged_cells_spans [of "[(0, 0, 2 / 5, 10)]" "[[[]]]" 1]
  have a: "analyze_merged_cells ?syn ?rs 4 = [\<lparr>row = 0, col = 0, colspan = 3, rowspan = 2\<rparr>]"
    using T1 by blast
  have b: "analyze_merged_cells [(0, 0, 2 / 5, 10)] [[[]]] 1 = []"
    using T2 c by blast
  show ?thesis using a b c by simp
qed

section \<open>Properties of the materialiser\<close>

lemma merge_row_length [simp]: "length (merge_row mc m dr tbl) = length tbl"
  by (simp add: merge_row_def Let_def)

lemma merge_row_row_length [simp]: "length (merge_row mc m dr tbl ! r) = length (tbl ! r)"
  by (cases "r = row m + dr") (auto simp: merge_row_def Let_def)

lemma merge_row_frame:
  "(r, c) \<noteq> (row m + dr, col m) \<Longrightarrow> merge_row mc m dr tbl ! r ! c = tbl ! r ! c"
  by (cases "r = row m + dr") (auto simp: merge_row_def Let_def)

lemma merge_row_hit:
  "row m + dr < length tbl \<Longrightarrow> col m < length (tbl ! (row m + dr)) \<Longrightarrow>
   merge_row mc m dr tbl ! (row m + dr) ! col m = merge_tc mc m dr (tbl ! (row m + dr) ! col m)"
  by (simp add: merge_row_def Let_def)

lemma fold_merge_row_length [simp]: "length (fold (merge_row mc m) ds tbl) = length tbl"
  by (induction ds arbitrary: tbl) simp_all

lemma fold_merge_row_row_length [simp]:
  "length (fold (merge_row mc m) ds tbl ! r) = length (tbl ! r)"
  by (induction ds arbitrary: tbl) simp_all

lemma fold_merge_row_frame:
  "\<forall>d\<in>set ds. (r, c) \<noteq> (row m + d, col m) \<Longrightarrow>
   fold (merge_row mc m) ds tbl ! r ! c = tbl ! r ! c"
  by (induction ds arbitrary: tbl) (simp_all add: merge_row_frame)

lemma fold_merge_row_hit:
  assumes "dr \<in> set ds" "distinct ds"
    and "row m + dr < length tbl" "col m < length (tbl ! (row m + dr))"
  shows "fold (merge_row mc m) ds tbl ! (row m + dr) ! col m
         = merge_tc mc m dr (tbl ! (row m + dr) ! col m)"
proof -
  from assms(1) obtain pre post where ds: "ds = pre @ dr # post"
    by (auto dest: split_list)
  with assms(2) have np: "dr \<notin> set pre" "dr \<notin> set post" by auto
  let ?t1 = "fold (merge_row mc m) pre tbl"
  let ?t2 = "merge_row mc m dr ?t1"
  have "fold (merge_row mc m) ds tbl ! (row m + dr) ! col m
        = fold (merge_row mc m) post ?t2 ! (row m + dr) ! col m"
    by (simp add: ds)
  also have "\<dots> = ?t2 ! (row m + dr) ! col m"
    using np(2) by (intro fold_merge_row_frame) auto
  also have "\<dots> = merge_tc mc m dr (?t1 ! (row m + dr) ! col m)"
    using assms(3,4) by (intro merge_row_hit) simp_all
  also have "?t1 ! (row m + dr) ! col m = tbl ! (row m + dr) ! col m"
    using np(1) by (intro fold_merge_row_frame) auto
  finally show ?thesis .
qed

lemma apply_span_length [simp]: "length (apply_span mc m tbl) = length tbl"
  by (simp add: apply_span_def)

lemma apply_span_row_length [simp]: "length (apply_span mc m tbl ! r) = length (tbl ! r)"
  by (simp add: apply_span_def)

lemma apply_span_frame:
  "\<not> (c = col m \<and> row m \<le> r \<and> r < row m + nat (rowspan m)) \<Longrightarrow>
   apply_span mc m tbl ! r ! c = tbl ! r ! c"
  unfolding apply_span_def by (intro fold_merge_row_frame) auto

lemma apply_span_hit:
  "dr < nat (rowspan m) \<Longrightarrow> row m + dr < length tbl \<Longrightarrow> col m < length (tbl ! (row m + dr)) \<Longrightarrow>
   apply_span mc m tbl ! (row m + dr) ! col m = merge_tc mc m dr (tbl ! (row m + dr) ! col m)"
  unfolding apply_span_def by (intro fold_merge_row_hit) simp_all

lemma apply_merge_length [simp]: "length (apply_merge_to_table tbl ms mc) = length tbl"
  unfolding apply_merge_to_table_def by (induction ms arbitrary: tbl) simp_all

lemma apply_merge_row_length [simp]:
  "length (apply_merge_to_table tbl ms mc ! r) = length (tbl ! r)"
  unfolding apply_merge_to_table_def by (induction ms arbitrary: tbl) simp_all

lemma apply_merge_frame:
  "\<forall>m\<in>set ms. \<not> (c = col m \<and> row m \<le> r \<and> r < row m + nat (rowspan m)) \<Longrightarrow>
   apply_merge_to_table tbl ms mc ! r ! c = tbl ! r ! c"
  unfolding apply_merge_to_table_def
  by (induction ms arbitrary: tbl) (simp_all add: apply_span_frame)

lemma apply_merge_append:
  "apply_merge_to_table tbl (xs @ ys) mc = apply_merge_to_table (apply_merge_to_table tbl xs mc) ys mc"
  by (simp add: apply_merge_to_table_def)

lemma apply_merge_Cons:
  "apply_merge_to_table tbl (m # ms) mc = apply_merge_to_table (apply_span mc m tbl) ms mc"
  by (simp add: apply_merge_to_table_def)

lemma apply_merge_hit:
  assumes k: "k < length ms"
    and dr: "dr < nat (rowspan (ms ! k))"
    and r: "row (ms ! k) + dr < length tbl"
    and c: "col (ms ! k) < length (tbl ! (row (ms ! k) + dr))"
    and later: "\<forall>j. k < j \<and> j < length ms \<longrightarrow>
        \<not> (col (ms ! j) = col (ms ! k) \<and> row (ms ! j) \<le> row (ms ! k) + dr
           \<and> row (ms ! k) + dr < row (ms ! j) + nat (rowspan (ms ! j)))"
  shows "\<exists>c0. apply_merge_to_table tbl ms mc ! (row (ms ! k) + dr) ! col (ms ! k)
         = merge_tc mc (ms ! k) dr c0"
proof -
  let ?m = "ms ! k"
  let ?pre = "take k ms" and ?post = "drop (Suc k) ms"
  have ms: "ms = ?pre @ ?m # ?post" using k by (simp add: id_take_nth_drop)
  let ?t1 = "apply_merge_to_table tbl ?pre mc"
  have post: "\<forall>m'\<in>set ?post. \<not> (col ?m = col m' \<and> row m' \<le> row ?m + dr
       \<and> row ?m + dr < row m' + nat (rowspan m'))"
  proof
    fix m' assume "m' \<in> set ?post"
    then obtain i where i: "i < length ?post" "m' = ?post ! i" by (auto simp: in_set_conv_nth)
    then have "m' = ms ! (Suc k + i)" "Suc k + i < length ms" using k by auto
    with later show "\<not> (col ?m = col m' \<and> row m' \<le> row ?m + dr
       \<and> row ?m + dr < row m' + nat (rowspan m'))"
      by (metis less_add_Suc1 add_Suc)
  qed
  have "apply_merge_to_table tbl ms mc = apply_merge_to_table (apply_span mc ?m ?t1) ?post mc"
    by (subst ms) (simp only: apply_merge_append apply_merge_Cons)
  then have "apply_merge_to_table tbl ms mc ! (row ?m + dr) ! col ?m
        = apply_span mc ?m ?t1 ! (row ?m + dr) ! col ?m"
    using post by (simp add: apply_merge_frame)
  also have "\<dots> = merge_tc mc ?m dr (?t1 ! (row ?m + dr) ! col ?m)"
    using dr r c by (intro apply_span_hit) simp_all
  finally show ?thesis by blast
qed

lemma merge_tc_marks:
  "(rowspan m > 1 \<longrightarrow> vMerge (merge_tc mc m dr c0) = Some (if dr = 0 then Restart else Continue))
   \<and> (colspan m > 1 \<longrightarrow> gridSpan (merge_tc mc m dr c0) = Some (colspan m))"
  by (simp add: merge_tc_def Let_def)

lemma fill_row_length [simp]: "length (fill_row g cells tcs) = length tcs"
proof -
  have "length (fold (\<lambda>(c_idx, cell_text) tcs.
             if c_idx \<ge> length tcs then tcs
             else tcs[c_idx := set_cell g cell_text (tcs ! c_idx)]) xs tcs) = length tcs" for xs
    by (induction xs arbitrary: tcs) (auto split: prod.splits)
  then show ?thesis by (simp add: fill_row_def)
qed

lemma fill_table_shape:
  "length (fill_table rs bg tbl) = length tbl
   \<and> length (fill_table rs bg tbl ! r) = length (tbl ! r)"
proof -
  let ?f = "\<lambda>(r_idx, cells) t.
             if r_idx \<ge> length t then t
             else let needs_gray_bg = (if r_idx < length bg then bg ! r_idx else False)
                  in t[r_idx := fill_row needs_gray_bg cells (t ! r_idx)]"
  have "length (fold ?f xs tbl) = length tbl \<and> length (fold ?f xs tbl ! r) = length (tbl ! r)" for xs
  proof (induction xs arbitrary: tbl)
    case Nil
    then show ?case by simp
  next
    case (Cons x xs)
    obtain i cells where x: "x = (i, cells)" by (cases x)
    have "length (?f x tbl) = length tbl \<and> length (?f x tbl ! r) = length (tbl ! r)"
      by (cases "r = i") (auto simp: x Let_def)
    then show ?case using Cons.IH [of "?f x tbl"] by simp
  qed
  then show ?thesis by (simp add: fill_table_def)
qed

lemma add_table_shape:
  "length (add_table n cc) = n \<and> (r < n \<longrightarrow> length (add_table n cc ! r) = cc)"
  by (simp add: add_table_def)

text \<open>
  C6.
  Take a span of the merge list of a table, a row offset \<open>dr\<close> inside its row span, such
  that the destination table has a cell in row \<open>row + dr\<close> and column \<open>col\<close> and no span
  later in the list starts a row on that same cell. If the span has \<open>rowspan > 1\<close>, that
  cell of the emitted table carries the vertical-merge mark \<open>Restart\<close> when \<open>dr = 0\<close>
  (the origin row) and the valueless mark \<open>Continue\<close> on every later row of the span;
  if the span has \<open>colspan > 1\<close>, that cell carries the horizontal span attribute with
  the value \<open>colspan\<close>, on every row the span covers.
\<close>

theorem materialize_marks:
  assumes k: "k < length (merge_info td)"
    and dr: "dr < nat (rowspan (merge_info td ! k))"
    and r: "row (merge_info td ! k) + dr < length (rows td)"
    and c: "col (merge_info td ! k) < col_count td"
    and later: "\<forall>j. k < j \<and> j < length (merge_info td) \<longrightarrow>
        \<not> (col (merge_info td ! j) = col (merge_info td ! k)
           \<and> row (merge_info td ! j) \<le> row (merge_info td ! k) + dr
           \<and> row (merge_info td ! k) + dr < row (merge_info td ! j) + nat (rowspan (merge_info td ! j)))"
  shows "(rowspan (merge_info td ! k) > 1 \<longrightarrow>
            vMerge (materialize td ! (row (merge_info td ! k) + dr) ! col (merge_info td ! k))
              = Some (if dr = 0 then Restart else Continue))
         \<and> (colspan (merge_info td ! k) > 1 \<longrightarrow>
            gridSpan (materialize td ! (row (merge_info td ! k) + dr) ! col (merge_info td ! k))
              = Some (colspan (merge_info td ! k)))"
proof -
  let ?t = "fill_table (rows td) (row_backgrounds td) (add_table (length (rows td)) (col_count td))"
  have l: "row (merge_info td ! k) + dr < length ?t"
    using r by (simp add: fill_table_shape add_table_shape)
  have w: "col (merge_info td ! k) < length (?t ! (row (merge_info td ! k) + dr))"
    using r c by (simp add: fill_table_shape add_table_shape)
  obtain c0 where "apply_merge_to_table ?t (merge_info td) (merged_cells_of (merge_info td))
       ! (row (merge_info td ! k) + dr) ! col (merge_info td ! k)
       = merge_tc (merged_cells_of (merge_info td)) (merge_info td ! k) dr c0"
    using apply_merge_hit [OF k dr l w later] by blast
  then show ?thesis by (simp add: materialize_def Let_def merge_tc_marks)
qed

theorem materialize_marks_witness:
  "vMerge (materialize \<lparr>page = 1, rows = [[[97], [98], [99]], [[100], [101], [102]]], col_count = 3,
        merge_info = [\<lparr>row = 0, col = 0, colspan = 3, rowspan = 2\<rparr>],
        row_backgrounds = [False, False]\<rparr> ! 0 ! 0) = Some Restart
   \<and> vMerge (materialize \<lparr>page = 1, rows = [[[97], [98], [99]], [[100], [101], [102]]], col_count = 3,
        merge_info = [\<lparr>row = 0, col = 0, colspan = 3, rowspan = 2\<rparr>],
        row_backgrounds = [False, False]\<rparr> ! 1 ! 0) = Some Continue
   \<and> gridSpan (materialize \<lparr>page = 1, rows = [[[97], [98], [99]], [[100], [101], [102]]], col_count = 3,
        merge_info = [\<lparr>row = 0, col = 0, colspan = 3, rowspan = 2\<rparr>],
        row_backgrounds = [False, False]\<rparr> ! 0 ! 0) = Some 3
   \<and> gridSpan (materialize \<lparr>page = 1, rows = [[[97], [98], [99]], [[100], [101], [102]]], col_count = 3,
        merge_info = [\<lparr>row = 0, col = 0, colspan = 3, rowspan = 2\<rparr>],
        row_backgrounds = [False, False]\<rparr> ! 1 ! 0) = Some 3"
  using materialize_marks [of 0 "\<lparr>page = 1, rows = [[[97], [98], [99]], [[100], [101], [102]]], col_count = 3,
        merge_info = [\<lparr>row = 0, col = 0, colspan = 3, rowspan = 2\<rparr>],
        row_backgrounds = [False, False]\<rparr>" 0]
    materialize_marks [of 0 "\<lparr>page = 1, rows = [[[97], [98], [99]], [[100], [101], [102]]], col_count = 3,
        merge_info = [\<lparr>row = 0, col = 0, colspan = 3, rowspan = 2\<rparr>],
        row_backgrounds = [False, False]\<rparr>" 1]
  by auto

text \<open>
  C1: the code leaves text in shadow cells.
  A table of two rows and three columns, texts a b c and d e f, with one span of 3
  columns and 2 rows at the origin. Position (0, 1) is a shadow cell of the span, and the
  emitted table still has the text b there (and c, e, f in the other shadow cells of
  columns 1 and 2); only the shadow cell (1, 0), in the span's own column, is cleared.
\<close>

theorem shadow_cell_keeps_text:
  "(0, 1) \<in> merged_cells_of (merge_info \<lparr>page = 1, rows = [[[97], [98], [99]], [[100], [101], [102]]], col_count = 3,
        merge_info = [\<lparr>row = 0, col = 0, colspan = 3, rowspan = 2\<rparr>],
        row_backgrounds = [False, False]\<rparr>)
   \<and> map (map (map tc_text)) (insert_tables_to_template [\<lparr>page = 1, rows = [[[97], [98], [99]], [[100], [101], [102]]], col_count = 3,
        merge_info = [\<lparr>row = 0, col = 0, colspan = 3, rowspan = 2\<rparr>],
        row_backgrounds = [False, False]\<rparr>])
      = [[[[97], [98], [99]], [[], [101], [102]]]]"
  by code_simp

section \<open>Properties of the translator\<close>

lemma translate_disabled: "\<not> enabled self \<Longrightarrow> translate E self t = (t, self)"
  by (simp add: translate_def)

lemma translate_batch_disabled: "\<not> enabled self \<Longrightarrow> translate_batch E self xs = (xs, self)"
  by (simp add: translate_batch_def)

lemma final_review_disabled: "\<not> enabled self \<Longrightarrow> final_review E self m = (m, self)"
  by (simp add: final_review_def)

lemma init_failure:
  "\<not> has_openai \<or> api_key = None \<or> api_key = Some [] \<or> \<not> client_ok \<Longrightarrow>
   \<not> enabled (init has_openai api_key client_ok)"
  by (auto simp: init_def Let_def)

lemma init_enabled:
  "enabled (init has_openai api_key client_ok) =
     (has_openai \<and> api_key \<noteq> None \<and> api_key \<noteq> Some [] \<and> client_ok)"
  by (auto simp: init_def Let_def)




text \<open>
  C10.
  When initialisation fails (the openai package is missing, the API key is missing or
  empty, or the client constructor raises) the \<open>enabled\<close> flag is false and every
  operation is the identity and leaves the translator as it is, so that this holds for
  every later call too: \<open>translate\<close> returns its text, \<open>translate_batch\<close> its list and
  \<open>final_review\<close> its field map.
\<close>

theorem init_failure_identity:
  "\<not> has_openai \<or> api_key = None \<or> api_key = Some [] \<or> \<not> client_ok \<Longrightarrow>
   \<not> enabled (init has_openai api_key client_ok)
   \<and> (\<forall>t. translate E (init has_openai api_key client_ok) t
            = (t, init has_openai api_key client_ok))
   \<and> (\<forall>xs. translate_batch E (init has_openai api_key client_ok) xs
            = (xs, init has_openai api_key client_ok))
   \<and> (\<forall>m. final_review E (init has_openai api_key client_ok) m
            = (m, init has_openai api_key client_ok))"
  using init_failure [of has_openai api_key client_ok]
  by (simp add: translate_disabled translate_batch_disabled final_review_disabled)

theorem init_failure_identity_witness:
  "\<not> enabled (init True None True)
   \<and> translate_batch
        \<lparr>upstream = (\<lambda>log t. Some [0x7B26, 0x5408]), decimal = ascii_dec, completion = rev\<rparr>
        (init True None True) [ustr_of ''PASS'', ustr_of ''FAIL'']
      = ([ustr_of ''PASS'', ustr_of ''FAIL''], init True None True)"
  using init_failure_identity
    [of True None True
        "\<lparr>upstream = (\<lambda>log t. Some [0x7B26, 0x5408]), decimal = ascii_dec, completion = rev\<rparr>"]
  by simp

lemma partition_uncached_rest:
  "snd (partition_uncached dec c (List.enumerate k ts) (res, tt, idx)) =
     (tt @ map snd (filter (\<lambda>(i, t). uncached dec c t) (List.enumerate k ts)),
      idx @ map fst (filter (\<lambda>(i, t). uncached dec c t) (List.enumerate k ts)))"
  by (induction ts arbitrary: k res tt idx) (auto simp: uncached_def split: option.splits)

lemma partition_uncached_length:
  "length (fst (partition_uncached dec c xs (res, tt, idx))) = length res"
  by (induction xs arbitrary: res tt idx) (auto split: option.splits)

lemma partition_uncached_results:
  "k + length ts \<le> length res \<Longrightarrow> j < length res \<Longrightarrow>
   fst (partition_uncached dec c (List.enumerate k ts) (res, tt, idx)) ! j =
     (if k \<le> j \<and> j < k + length ts
         \<and> should_translate dec (ts ! (j - k)) \<and> c (py_strip (ts ! (j - k))) \<noteq> None
      then the (c (py_strip (ts ! (j - k))))
      else res ! j)"
proof (induction ts arbitrary: k res tt idx)
  case Nil
  then show ?case by auto
next
  case (Cons t ts)
  have le: "Suc k + length ts \<le> length res" using Cons.prems by simp
  show ?case
  proof (cases "should_translate dec t \<and> c (py_strip t) \<noteq> None")
    case True
    then obtain v where v: "c (py_strip t) = Some v" by auto
    have "fst (partition_uncached dec c (List.enumerate k (t # ts)) (res, tt, idx)) ! j
          = fst (partition_uncached dec c (List.enumerate (Suc k) ts) (res[k := v], tt, idx)) ! j"
      using True v by simp
    also have "\<dots> = (if Suc k \<le> j \<and> j < Suc k + length ts
         \<and> should_translate dec (ts ! (j - Suc k)) \<and> c (py_strip (ts ! (j - Suc k))) \<noteq> None
      then the (c (py_strip (ts ! (j - Suc k))))
      else res[k := v] ! j)"
      using Cons.IH [of "Suc k" "res[k := v]" tt idx] le Cons.prems(2) by simp
    finally show ?thesis using True v Cons.prems
      by (cases "j = k") (auto simp: nth_Cons' Suc_diff_Suc)
  next
    case False
    then have "\<exists>tt' idx'. partition_uncached dec c (List.enumerate k (t # ts)) (res, tt, idx)
       = partition_uncached dec c (List.enumerate (Suc k) ts) (res, tt', idx')"
      by (cases "should_translate dec t"; cases "c (py_strip t)") (simp_all, blast+)
    then obtain tt' idx' where
      "partition_uncached dec c (List.enumerate k (t # ts)) (res, tt, idx)
       = partition_uncached dec c (List.enumerate (Suc k) ts) (res, tt', idx')"
      by blast
    then have "fst (partition_uncached dec c (List.enumerate k (t # ts)) (res, tt, idx)) ! j
          = fst (partition_uncached dec c (List.enumerate (Suc k) ts) (res, tt', idx')) ! j"
      by simp
    also have "\<dots> = (if Suc k \<le> j \<and> j < Suc k + length ts
         \<and> should_translate dec (ts ! (j - Suc k)) \<and> c (py_strip (ts ! (j - Suc k))) \<noteq> None
      then the (c (py_strip (ts ! (j - Suc k))))
      else res ! j)"
      using Cons.IH [of "Suc k" res tt' idx'] le Cons.prems(2) by simp
    finally show ?thesis using False Cons.prems
      by (cases "j = k") (auto simp: nth_Cons' Suc_diff_Suc)
  qed
qed

lemma partition_uncached_top:
  "partition_uncached dec c (List.enumerate 0 texts) (texts, [], []) =
     (map (first_pass dec c) texts,
      map snd (filter (\<lambda>(i, t). uncached dec c t) (List.enumerate 0 texts)),
      map fst (filter (\<lambda>(i, t). uncached dec c t) (List.enumerate 0 texts)))"
proof -
  let ?p = "partition_uncached dec c (List.enumerate 0 texts) (texts, [], [])"
  have "fst ?p = map (first_pass dec c) texts"
  proof (rule nth_equalityI)
    show "length (fst ?p) = length (map (first_pass dec c) texts)"
      by (simp add: partition_uncached_length)
  next
    fix j assume "j < length (fst ?p)"
    then have j: "j < length texts" by (simp add: partition_uncached_length)
    then show "fst ?p ! j = map (first_pass dec c) texts ! j"
      using partition_uncached_results [of 0 texts texts j dec c "[]" "[]"]
      by (auto simp: first_pass_def split: option.splits)
  qed
  moreover have "snd ?p = (map snd (filter (\<lambda>(i, t). uncached dec c t) (List.enumerate 0 texts)),
      map fst (filter (\<lambda>(i, t). uncached dec c t) (List.enumerate 0 texts)))"
    using partition_uncached_rest [of dec c 0 texts texts "[]" "[]"] by simp
  ultimately show ?thesis by (metis prod.collapse)
qed


lemma store_result_length [simp]: "length (store_result idx f res) = length res"
  by (cases f) (simp add: store_result_def)

lemma collect_length [simp]: "length (collect idx F res) = length res"
  unfolding collect_def by (induction F arbitrary: res) simp_all









lemma translate_completion [simp]: "translate (E\<lparr>completion := f\<rparr>) s t = translate E s t"
  by (auto simp: translate_def Let_def split: option.splits)

lemma run_pool_completion [simp]: "run_pool (E\<lparr>completion := f\<rparr>) s xs = run_pool E s xs"
  by (induction xs arbitrary: s) (auto simp: translate_single_for_batch_def)

lemma run_pool_Nil_iff: "run_pool E s [] = ([], s)"
  by simp




















lemma final_review_clean:
  "\<forall>(k, v)\<in>set texts. \<not> should_translate (decimal E) v \<Longrightarrow> final_review E self texts = (texts, self)"
proof -
  assume a: "\<forall>(k, v)\<in>set texts. \<not> should_translate (decimal E) v"
  have "filter (\<lambda>(key, v). needs_review (decimal E) v) texts = []"
    using a by (auto simp: filter_empty_conv needs_review_def)
  then show ?thesis by (simp add: final_review_def)
qed

lemma pass_facts:
  "should_translate ascii_dec (ustr_of ''PASS'')"
  "\<not> is_chinese (ustr_of ''PASS'')"
  "ustr_of ''PASS'' \<noteq> []"
  "py_strip (ustr_of ''PASS'') = ustr_of ''PASS''"
  "py_strip [0x7B26, 0x5408] = [0x7B26, 0x5408]"
  "\<not> should_translate ascii_dec [0x7B26, 0x5408]"
  by (simp_all add: should_translate_def ustr_of_def py_strip_def is_space_def is_chinese_def is_cjk_def
      numeric_pattern_def standard_pattern_def numeric_class_def code_tail_class_def is_upper_AZ_def
      at_end_def ascii_dec_def)

lemma review_fail_first:
  "final_review \<lparr>upstream = (\<lambda>log t. if log = [] then None else Some [0x7B26, 0x5408]),
        decimal = ascii_dec, completion = (\<lambda>finished. finished)\<rparr> \<lparr>enabled = True, cache = Map.empty, calls = []\<rparr> [(ustr_of ''verdict'', ustr_of ''PASS'')]
   = ([(ustr_of ''verdict'', ustr_of ''PASS'')],
      \<lparr>enabled = True, cache = Map.empty, calls = [ustr_of ''PASS'']\<rparr>)"
  by (simp add: final_review_def needs_review_def pass_facts translate_batch_def
      translate_def translate_single_for_batch_def collect_def store_result_def write_back_def Let_def)

lemma review_fail_second:
  "fst (final_review \<lparr>upstream = (\<lambda>log t. if log = [] then None else Some [0x7B26, 0x5408]),
        decimal = ascii_dec, completion = (\<lambda>finished. finished)\<rparr> \<lparr>enabled = True, cache = Map.empty, calls = [ustr_of ''PASS'']\<rparr>
      [(ustr_of ''verdict'', ustr_of ''PASS'')])
   = [(ustr_of ''verdict'', [0x7B26, 0x5408])]"
  by (simp add: final_review_def needs_review_def pass_facts translate_batch_def
      translate_def translate_single_for_batch_def collect_def store_result_def write_back_def Let_def)

lemma review_ok_first:
  "fst (final_review \<lparr>upstream = (\<lambda>log t. Some [0x7B26, 0x5408]),
        decimal = ascii_dec, completion = (\<lambda>finished. finished)\<rparr> \<lparr>enabled = True, cache = Map.empty, calls = []\<rparr> [(ustr_of ''verdict'', ustr_of ''PASS'')])
   = [(ustr_of ''verdict'', [0x7B26, 0x5408])]"
  by (simp add: final_review_def needs_review_def pass_facts translate_batch_def
      translate_def translate_single_for_batch_def collect_def store_result_def write_back_def Let_def)

text \<open>
  C9, as stated, fails.
  One field, "verdict", with the value "PASS", and a backend whose first request fails
  and whose later requests answer U+7B26 U+5408. The first pass falls back to the source
  text and returns the field map unchanged; the second pass, applied to that output,
  finds the field still eligible, asks the backend again and returns a different map.
\<close>

theorem final_review_retry_counterexample:
  "fst (final_review \<lparr>upstream = (\<lambda>log t. if log = [] then None else Some [0x7B26, 0x5408]),
        decimal = ascii_dec, completion = (\<lambda>finished. finished)\<rparr> \<lparr>enabled = True, cache = Map.empty, calls = []\<rparr> [(ustr_of ''verdict'', ustr_of ''PASS'')])
     = [(ustr_of ''verdict'', ustr_of ''PASS'')]
   \<and> fst (final_review \<lparr>upstream = (\<lambda>log t. if log = [] then None else Some [0x7B26, 0x5408]),
        decimal = ascii_dec, completion = (\<lambda>finished. finished)\<rparr>
       (snd (final_review \<lparr>upstream = (\<lambda>log t. if log = [] then None else Some [0x7B26, 0x5408]),
        decimal = ascii_dec, completion = (\<lambda>finished. finished)\<rparr> \<lparr>enabled = True, cache = Map.empty, calls = []\<rparr> [(ustr_of ''verdict'', ustr_of ''PASS'')]))
       (fst (final_review \<lparr>upstream = (\<lambda>log t. if log = [] then None else Some [0x7B26, 0x5408]),
        decimal = ascii_dec, completion = (\<lambda>finished. finished)\<rparr> \<lparr>enabled = True, cache = Map.empty, calls = []\<rparr> [(ustr_of ''verdict'', ustr_of ''PASS'')])))
     = [(ustr_of ''verdict'', [0x7B26, 0x5408])]"
  by (simp add: review_fail_first review_fail_second)

text \<open>
  C9, amended.
  On a field map none of whose values is eligible for translation the final-review pass
  returns its input unchanged, sends nothing to the backend and leaves the translator as
  it is. Hence a second application to the output of the first changes nothing whenever
  no value of that output is eligible any more.
\<close>

theorem final_review_clean_noop:
  "((\<forall>(k, v)\<in>set texts. \<not> should_translate (decimal E) v)
      \<longrightarrow> final_review E self texts = (texts, self))
   \<and> ((\<forall>(k, v)\<in>set (fst (final_review E self texts)). \<not> should_translate (decimal E) v)
      \<longrightarrow> final_review E (snd (final_review E self texts)) (fst (final_review E self texts))
          = final_review E self texts)"
  using final_review_clean [of texts E self]
    final_review_clean [of "fst (final_review E self texts)" E "snd (final_review E self texts)"]
  by simp

theorem final_review_clean_noop_witness:
  "fst (final_review \<lparr>upstream = (\<lambda>log t. Some [0x7B26, 0x5408]),
        decimal = ascii_dec, completion = (\<lambda>finished. finished)\<rparr> \<lparr>enabled = True, cache = Map.empty, calls = []\<rparr> [(ustr_of ''verdict'', ustr_of ''PASS'')])
     = [(ustr_of ''verdict'', [0x7B26, 0x5408])]
   \<and> final_review \<lparr>upstream = (\<lambda>log t. Some [0x7B26, 0x5408]),
        decimal = ascii_dec, completion = (\<lambda>finished. finished)\<rparr>
       (snd (final_review \<lparr>upstream = (\<lambda>log t. Some [0x7B26, 0x5408]),
        decimal = ascii_dec, completion = (\<lambda>finished. finished)\<rparr> \<lparr>enabled = True, cache = Map.empty, calls = []\<rparr> [(ustr_of ''verdict'', ustr_of ''PASS'')]))
       (fst (final_review \<lparr>upstream = (\<lambda>log t. Some [0x7B26, 0x5408]),
        decimal = ascii_dec, completion = (\<lambda>finished. finished)\<rparr> \<lparr>enabled = True, cache = Map.empty, calls = []\<rparr> [(ustr_of ''verdict'', ustr_of ''PASS'')]))
     = final_review \<lparr>upstream = (\<lambda>log t. Some [0x7B26, 0x5408]),
        decimal = ascii_dec, completion = (\<lambda>finished. finished)\<rparr> \<lparr>enabled = True, cache = Map.empty, calls = []\<rparr> [(ustr_of ''verdict'', ustr_of ''PASS'')]
   \<and> final_review \<lparr>upstream = (\<lambda>log t. Some [0x7B26, 0x5408]),
        decimal = ascii_dec, completion = (\<lambda>finished. finished)\<rparr> \<lparr>enabled = True, cache = Map.empty, calls = []\<rparr> [(ustr_of ''verdict'', [0x7B26, 0x5408])]
     = ([(ustr_of ''verdict'', [0x7B26, 0x5408])], \<lparr>enabled = True, cache = Map.empty, calls = []\<rparr>)"
proof -
  let ?E = "\<lparr>upstream = (\<lambda>log t. Some [0x7B26, 0x5408]),
        decimal = ascii_dec, completion = (\<lambda>finished. finished)\<rparr>"
  let ?S = "\<lparr>enabled = True, cache = Map.empty, calls = []\<rparr>"
  let ?m = "[(ustr_of ''verdict'', ustr_of ''PASS'')]"
  have c: "\<forall>(k, v)\<in>set (fst (final_review ?E ?S ?m)). \<not> should_translate (decimal ?E) v"
    by (simp add: review_ok_first pass_facts)
  have c': "\<forall>(k, v)\<in>set [(ustr_of ''verdict'', [0x7B26, 0x5408 :: nat])]. \<not> should_translate (decimal ?E) v"
    by (simp add: pass_facts)
  show ?thesis
    using c c' review_ok_first final_review_clean_noop [of ?m ?E ?S]
      final_review_clean_noop [of "[(ustr_of ''verdict'', [0x7B26, 0x5408])]" ?E ?S]
    by blast
qed

section \<open>Requests sent by a batch\<close>

lemma translate_calls_bound:
  "translate E s t = (r, s') \<Longrightarrow> calls s' = calls s \<or> calls s' = calls s @ [t]"
  by (auto simp: translate_def Let_def split: option.splits if_splits)

lemma run_pool_calls_bound:
  "run_pool E s (List.enumerate k ts) = (fin, s') \<Longrightarrow>
   \<exists>new. calls s' = calls s @ new \<and> length new \<le> length ts \<and> set new \<subseteq> set ts"
proof (induction ts arbitrary: k s fin s')
  case Nil
  then show ?case by simp
next
  case (Cons t ts)
  obtain r s1 where t: "translate E s t = (r, s1)" by (cases "translate E s t")
  obtain rs s2 where p: "run_pool E s1 (List.enumerate (Suc k) ts) = (rs, s2)"
    by (cases "run_pool E s1 (List.enumerate (Suc k) ts)")
  have s': "s' = s2" using Cons.prems t p by (simp add: translate_single_for_batch_def)
  obtain new where new: "calls s2 = calls s1 @ new" "length new \<le> length ts" "set new \<subseteq> set ts"
    using Cons.IH [OF p] by blast
  from translate_calls_bound [OF t] show ?case
  proof
    assume "calls s1 = calls s"
    then have "calls s' = calls s @ new \<and> length new \<le> length (t # ts) \<and> set new \<subseteq> set (t # ts)"
      using new s' by auto
    then show ?thesis by blast
  next
    assume "calls s1 = calls s @ [t]"
    then have "calls s' = calls s @ (t # new) \<and> length (t # new) \<le> length (t # ts)
        \<and> set (t # new) \<subseteq> set (t # ts)"
      using new s' by auto
    then show ?thesis by blast
  qed
qed

lemma run_pool_calls_exact:
  assumes ok: "\<forall>log t. upstream E log t \<noteq> None"
  shows "run_pool E s (List.enumerate k ts) = (fin, s') \<Longrightarrow> enabled s \<Longrightarrow>
   \<forall>t\<in>set ts. should_translate (decimal E) t \<Longrightarrow>
   \<exists>new. calls s' = calls s @ new \<and> distinct (map py_strip new)
      \<and> py_strip ` set new = py_strip ` {t \<in> set ts. cache s (py_strip t) = None}"
proof (induction ts arbitrary: k s fin s')
  case Nil
  then show ?case by simp
next
  case (Cons t ts)
  obtain r s1 where t: "translate E s t = (r, s1)" by (cases "translate E s t")
  obtain rs s2 where p: "run_pool E s1 (List.enumerate (Suc k) ts) = (rs, s2)"
    by (cases "run_pool E s1 (List.enumerate (Suc k) ts)")
  have s': "s' = s2" using Cons.prems(1) t p by (simp add: translate_single_for_batch_def)
  have el: "should_translate (decimal E) t" "\<forall>t\<in>set ts. should_translate (decimal E) t"
    using Cons.prems(3) by simp_all
  have en1: "enabled s1" using t Cons.prems(2)
    by (auto simp: translate_def Let_def split: option.splits if_splits)
  obtain new where new: "calls s2 = calls s1 @ new" "distinct (map py_strip new)"
    "py_strip ` set new = py_strip ` {t \<in> set ts. cache s1 (py_strip t) = None}"
    using Cons.IH [OF p en1 el(2)] by blast
  show ?case
  proof (cases "cache s (py_strip t)")
    case (Some v)
    then have "s1 = s" using t Cons.prems(2) el(1) by (simp add: translate_def)
    moreover have "{t' \<in> set (t # ts). cache s (py_strip t') = None}
                   = {t' \<in> set ts. cache s (py_strip t') = None}"
      using Some by auto
    ultimately have "calls s' = calls s @ new \<and> distinct (map py_strip new)
      \<and> py_strip ` set new = py_strip ` {t' \<in> set (t # ts). cache s (py_strip t') = None}"
      using new s' by simp
    then show ?thesis by blast
  next
    case None
    obtain content where u: "upstream E (calls s) t = Some content" using ok by (metis not_None_eq)
    have s1: "s1 = s\<lparr>cache := (cache s)(py_strip t \<mapsto> py_strip content), calls := calls s @ [t]\<rparr>"
      using t Cons.prems(2) el(1) None u by (auto simp: translate_def Let_def)
    have c1: "{t' \<in> set ts. cache s1 (py_strip t') = None}
              = {t' \<in> set ts. cache s (py_strip t') = None \<and> py_strip t' \<noteq> py_strip t}"
      using s1 by auto
    have a: "calls s' = calls s @ (t # new)" using new(1) s1 s' by simp
    have "py_strip t \<notin> py_strip ` set new" using new(3) c1 by auto
    then have b: "distinct (map py_strip (t # new))" using new(2) by simp
    have c: "py_strip ` set (t # new) = py_strip ` {t' \<in> set (t # ts). cache s (py_strip t') = None}"
      using new(3) c1 None by auto
    show ?thesis using a b c by blast
  qed
qed

lemma batch_state:
  "enabled self \<Longrightarrow>
   snd (translate_batch E self texts)
     = snd (run_pool E self (List.enumerate 0 (map snd (pending (decimal E) (cache self) texts))))"
proof -
  assume en: "enabled self"
  have part: "partition_uncached (decimal E) (cache self) (List.enumerate 0 texts) (texts, [], [])
      = (map (first_pass (decimal E) (cache self)) texts,
         map snd (pending (decimal E) (cache self) texts),
         map fst (pending (decimal E) (cache self) texts))"
    by (simp add: partition_uncached_top pending_def)
  show ?thesis
    using en part
    by (cases "map snd (pending (decimal E) (cache self) texts) = []")
       (auto simp: translate_batch_def split: prod.splits)
qed

lemma pending_texts:
  "snd ` set (pending dec c texts) = {t \<in> set texts. should_translate dec t \<and> c (py_strip t) = None}"
  "map snd (pending dec c texts) = filter (\<lambda>t. should_translate dec t \<and> c (py_strip t) = None) texts"
proof -
  show 2: "map snd (pending dec c texts) = filter (\<lambda>t. should_translate dec t \<and> c (py_strip t) = None) texts"
  proof -
    have "map snd (filter (\<lambda>(i, t). P t) (List.enumerate k xs)) = filter P xs" for P k and xs :: "ustr list"
      by (induction xs arbitrary: k) auto
    then show ?thesis by (simp add: pending_def uncached_def)
  qed
  have "set (map snd (pending dec c texts)) = {t \<in> set texts. should_translate dec t \<and> c (py_strip t) = None}"
    unfolding 2 by auto
  then show "snd ` set (pending dec c texts) = {t \<in> set texts. should_translate dec t \<and> c (py_strip t) = None}"
    by simp
qed

lemma batch_upstream_calls:
  "\<exists>new. calls (snd (translate_batch E self texts)) = calls self @ new
     \<and> set new \<subseteq> {t \<in> set texts. should_translate (decimal E) t \<and> cache self (py_strip t) = None}
     \<and> length new \<le> length (filter (\<lambda>t. should_translate (decimal E) t \<and> cache self (py_strip t) = None) texts)
     \<and> (enabled self \<and> (\<forall>log t. upstream E log t \<noteq> None) \<longrightarrow>
          distinct (map py_strip new)
          \<and> length new = card (py_strip ` {t \<in> set texts.
                should_translate (decimal E) t \<and> cache self (py_strip t) = None}))"
proof (cases "enabled self")
  case False
  then have "calls (snd (translate_batch E self texts)) = calls self @ []"
    by (simp add: translate_batch_disabled)
  then show ?thesis using False by (intro exI [of _ "[]"]) simp
next
  case True
  let ?tt = "map snd (pending (decimal E) (cache self) texts)"
  let ?U = "{t \<in> set texts. should_translate (decimal E) t \<and> cache self (py_strip t) = None}"
  obtain fin s' where rp: "run_pool E self (List.enumerate 0 ?tt) = (fin, s')"
    by (cases "run_pool E self (List.enumerate 0 ?tt)")
  have st: "snd (translate_batch E self texts) = s'" using batch_state [OF True, of E texts] rp by simp
  obtain new where new: "calls s' = calls self @ new" "length new \<le> length ?tt" "set new \<subseteq> set ?tt"
    using run_pool_calls_bound [OF rp] by blast
  have el: "\<forall>t\<in>set ?tt. should_translate (decimal E) t"
    by (simp add: pending_texts(1))
  have ex: "distinct (map py_strip new) \<and> length new = card (py_strip ` ?U)"
    if ok: "\<forall>log t. upstream E log t \<noteq> None"
  proof -
    obtain new' where n': "calls s' = calls self @ new'" "distinct (map py_strip new')"
      "py_strip ` set new' = py_strip ` {t \<in> set ?tt. cache self (py_strip t) = None}"
      using run_pool_calls_exact [OF ok rp True el] by blast
    have eq: "new' = new" using n'(1) new(1) by simp
    have "{t \<in> set ?tt. cache self (py_strip t) = None} = ?U" by (auto simp: pending_texts(1))
    then have "py_strip ` set new = py_strip ` ?U" using n'(3) eq by simp
    moreover have "length new = card (py_strip ` set new)"
      using n'(2) eq by (metis distinct_card length_map set_map)
    ultimately show ?thesis using n'(2) eq by simp
  qed
  have "calls (snd (translate_batch E self texts)) = calls self @ new
     \<and> set new \<subseteq> ?U
     \<and> length new \<le> length (filter (\<lambda>t. should_translate (decimal E) t \<and> cache self (py_strip t) = None) texts)
     \<and> (enabled self \<and> (\<forall>log t. upstream E log t \<noteq> None) \<longrightarrow>
          distinct (map py_strip new) \<and> length new = card (py_strip ` ?U))"
    using st new ex by (simp add: pending_texts)
  then show ?thesis by blast
qed

lemma two_workers:
  "run_schedule \<lparr>upstream = (\<lambda>log t. Some [0x7B26, 0x5408]), decimal = ascii_dec,
                 completion = (\<lambda>finished. finished)\<rparr> 2 [0, 1, 0, 1]
     (pool_start \<lparr>enabled = True, cache = Map.empty, calls = []\<rparr> [ustr_of ''PASS'', ustr_of ''PASS''])
   = \<lparr>pool_cache = [ustr_of ''PASS'' \<mapsto> [0x7B26, 0x5408]],
      pool_calls = [ustr_of ''PASS'', ustr_of ''PASS''],
      tasks = [Finished [0x7B26, 0x5408], Finished [0x7B26, 0x5408]]\<rparr>"
  by (simp add: run_schedule_def pool_start_def advance_def pass_facts)

lemma one_worker:
  "run_schedule \<lparr>upstream = (\<lambda>log t. Some [0x7B26, 0x5408]), decimal = ascii_dec,
                 completion = (\<lambda>finished. finished)\<rparr> 1 [0, 1, 0, 1]
     (pool_start \<lparr>enabled = True, cache = Map.empty, calls = []\<rparr> [ustr_of ''PASS'', ustr_of ''PASS''])
   = \<lparr>pool_cache = [ustr_of ''PASS'' \<mapsto> [0x7B26, 0x5408]],
      pool_calls = [ustr_of ''PASS''],
      tasks = [Finished [0x7B26, 0x5408], Finished [0x7B26, 0x5408]]\<rparr>"
  by (simp add: run_schedule_def pool_start_def advance_def pass_facts)

lemma seq_fail:
  "calls (snd (translate_batch \<lparr>upstream = (\<lambda>log t. None), decimal = ascii_dec,
                 completion = (\<lambda>finished. finished)\<rparr>
       \<lparr>enabled = True, cache = Map.empty, calls = []\<rparr> [ustr_of ''PASS'', ustr_of ''PASS'']))
   = [ustr_of ''PASS'', ustr_of ''PASS'']"
  by (simp add: translate_batch_def pass_facts translate_def translate_single_for_batch_def Let_def)

lemma k1: "remdups (map py_strip (filter (should_translate ascii_dec) [ustr_of ''PASS'', ustr_of ''PASS''])) = [ustr_of ''PASS'']"
  by (simp add: pass_facts)

lemma no_queued_finished [simp]: "\<not> list_ex is_queued (map Finished xs)"
  by (induction xs) simp_all

lemma no_waiting_finished [simp]: "filter is_waiting (map Finished xs) = []"
  by (induction xs) simp_all

lemma no_waiting_queued [simp]: "filter is_waiting (map Queued xs) = []"
  by (induction xs) simp_all

lemma advance_twice:
  assumes en: "enabled s" and w: "1 \<le> W" and t: "translate E s t = (r, s1)"
  shows "advance E W (length fr) (advance E W (length fr) (pool_of s fr (t # ts)))
         = pool_of s1 (fr @ [r]) ts"
proof -
  let ?P = "pool_of s fr (t # ts)"
  have nth: "tasks ?P ! length fr = Queued t" by (simp add: pool_of_def nth_append)
  have len: "length fr < length (tasks ?P)" by (simp add: pool_of_def)
  have tk: "take (length fr) (tasks ?P) = map Finished fr" by (simp add: pool_of_def)
  have nw: "filter is_waiting (tasks ?P) = []" by (simp add: pool_of_def)
  have upd: "(map Finished fr @ y # zs)[length fr := x] = map Finished fr @ x # zs" for x y zs
    by (simp add: list_update_append)
  show ?thesis
  proof (cases "should_translate (decimal E) t")
    case False
    then have "r = t" "s1 = s" using t by (simp_all add: translate_def)
    then show ?thesis using False w nth len tk nw
      by (simp add: advance_def pool_of_def upd nth_append)
  next
    case True
    show ?thesis
    proof (cases "cache s (py_strip t)")
      case (Some v)
      then have "r = v" "s1 = s" using t en True by (simp_all add: translate_def)
      then show ?thesis using True Some w nth len tk nw
        by (simp add: advance_def pool_of_def upd nth_append)
    next
      case None
      show ?thesis
      proof (cases "upstream E (calls s) t")
        case N: None
        then have "r = t" "s1 = s\<lparr>calls := calls s @ [t]\<rparr>"
          using t en True None by (auto simp: translate_def)
        then show ?thesis using True None N w nth len tk nw
          by (simp add: advance_def pool_of_def upd nth_append)
      next
        case (Some content)
        then have "r = py_strip content"
          "s1 = s\<lparr>cache := (cache s)(py_strip t \<mapsto> py_strip content), calls := calls s @ [t]\<rparr>"
          using t en True None by (auto simp: translate_def Let_def)
        then show ?thesis using True None Some w nth len tk nw
          by (simp add: advance_def pool_of_def upd nth_append)
      qed
    qed
  qed
qed

lemma run_pool_is_schedule_gen:
  assumes w: "1 \<le> W"
  shows "enabled s \<Longrightarrow> run_pool E s (List.enumerate k ts) = (fin, s') \<Longrightarrow>
   run_schedule E W (concat (map (\<lambda>j. [j, j]) [length fr..<length fr + length ts]))
     (pool_of s fr ts)
   = pool_of s' (fr @ map snd fin) []"
proof (induction ts arbitrary: k s fin s' fr)
  case Nil
  then show ?case by (simp add: run_schedule_def)
next
  case (Cons t ts)
  obtain r s1 where t: "translate E s t = (r, s1)" by (cases "translate E s t")
  obtain rs s2 where p: "run_pool E s1 (List.enumerate (Suc k) ts) = (rs, s2)"
    by (cases "run_pool E s1 (List.enumerate (Suc k) ts)")
  have fin: "fin = (k, r) # rs" and s': "s' = s2"
    using Cons.prems(2) t p by (simp_all add: translate_single_for_batch_def)
  have en1: "enabled s1" using t Cons.prems(1)
    by (auto simp: translate_def Let_def split: option.splits if_splits)
  have sch: "[length fr..<length fr + length (t # ts)]
             = length fr # [length (fr @ [r])..<length (fr @ [r]) + length ts]"
  proof -
    have a: "[length fr..<length fr + length (t # ts)]
          = length fr # [Suc (length fr)..<length fr + length (t # ts)]"
      by (rule upt_conv_Cons) simp
    have b: "Suc (length fr) = length (fr @ [r])"
      "length fr + length (t # ts) = length (fr @ [r]) + length ts" by simp_all
    show ?thesis using a by (simp only: b)
  qed
  have "run_schedule E W (concat (map (\<lambda>j. [j, j]) [length fr..<length fr + length (t # ts)]))
          (pool_of s fr (t # ts))
        = run_schedule E W (concat (map (\<lambda>j. [j, j]) [length (fr @ [r])..<length (fr @ [r]) + length ts]))
            (advance E W (length fr) (advance E W (length fr) (pool_of s fr (t # ts))))"
    unfolding sch by (simp add: run_schedule_def)
  also have "\<dots> = run_schedule E W (concat (map (\<lambda>j. [j, j]) [length (fr @ [r])..<length (fr @ [r]) + length ts]))
            (pool_of s1 (fr @ [r]) ts)"
    by (simp only: advance_twice [OF Cons.prems(1) w t])
  also have "\<dots> = pool_of s2 ((fr @ [r]) @ map snd rs) []"
    by (rule Cons.IH [OF en1 p])
  finally show ?case using fin s' by simp
qed

lemma advance_tasks_length [simp]: "length (tasks (advance E W j P)) = length (tasks P)"
  by (auto simp: advance_def split: task.splits option.splits)

lemma filter_update_le:
  "j < length xs \<Longrightarrow> \<not> Q y \<Longrightarrow> length (filter Q (xs[j := y])) \<le> length (filter Q xs)"
proof (induction xs arbitrary: j)
  case Nil
  then show ?case by simp
next
  case (Cons x xs)
  then show ?case by (cases j) (auto simp: le_SucI)
qed

lemma filter_update_less:
  "j < length xs \<Longrightarrow> Q (xs ! j) \<Longrightarrow> \<not> Q y \<Longrightarrow>
   Suc (length (filter Q (xs[j := y]))) = length (filter Q xs)"
proof (induction xs arbitrary: j)
  case Nil
  then show ?case by simp
next
  case (Cons x xs)
  then show ?case by (cases j) auto
qed

lemma advance_calls_measure:
  "length (pool_calls (advance E W j P)) + length (filter is_queued (tasks (advance E W j P)))
   \<le> length (pool_calls P) + length (filter is_queued (tasks P))"
proof (cases "j < length (tasks P)")
  case False
  then show ?thesis by (simp add: advance_def)
next
  case True
  show ?thesis
  proof (cases "tasks P ! j")
    case (Queued t)
    have q: "is_queued (tasks P ! j)" using Queued by simp
    have a: "Suc (length (filter is_queued ((tasks P)[j := Finished x]))) = length (filter is_queued (tasks P))" for x
      using True q by (intro filter_update_less) simp_all
    have b: "Suc (length (filter is_queued ((tasks P)[j := Waiting x y]))) = length (filter is_queued (tasks P))" for x y
      using True q by (intro filter_update_less) simp_all
    show ?thesis using True Queued a b
      by (auto simp: advance_def split: option.splits) (metis a le_SucI le_refl add_Suc_right)+
  next
    case (Waiting t sent)
    have a: "length (filter is_queued ((tasks P)[j := Finished x])) \<le> length (filter is_queued (tasks P))" for x
      using True by (intro filter_update_le) simp_all
    show ?thesis using True Waiting a by (auto simp: advance_def split: option.splits)
  next
    case (Finished r)
    then show ?thesis using True by (simp add: advance_def)
  qed
qed

lemma schedule_calls_measure:
  "length (pool_calls (run_schedule E W schedule P))
     + length (filter is_queued (tasks (run_schedule E W schedule P)))
   \<le> length (pool_calls P) + length (filter is_queued (tasks P))"
  unfolding run_schedule_def
proof (induction schedule arbitrary: P)
  case Nil
  then show ?case by simp
next
  case (Cons j schedule)
  show ?case using Cons.IH [of "advance E W j P"] advance_calls_measure [of E W j P] by simp
qed

lemma schedule_calls_bound:
  "length (pool_calls (run_schedule E W schedule (pool_start self tt)))
   \<le> length (calls self) + length tt"
proof -
  have "length (filter is_queued (map Queued tt)) = length tt" by (induction tt) simp_all
  then show ?thesis
    using schedule_calls_measure [of E W schedule "pool_start self tt"]
    by (simp add: pool_start_def)
qed

lemma schedule_calls_prefix:
  "\<exists>new. pool_calls (run_schedule E W schedule P) = pool_calls P @ new"
  unfolding run_schedule_def
proof (induction schedule arbitrary: P)
  case Nil
  then show ?case by simp
next
  case (Cons j schedule)
  have "\<exists>n1. pool_calls (advance E W j P) = pool_calls P @ n1"
    by (auto simp: advance_def split: task.splits option.splits)
  then show ?case using Cons.IH [of "advance E W j P"] by auto
qed

lemma run_pool_is_schedule:
  assumes "1 \<le> W" "enabled self" "run_pool E self (List.enumerate 0 tt) = (fin, s')"
  shows "run_schedule E W (concat (map (\<lambda>j. [j, j]) [0..<length tt])) (pool_start self tt)
         = \<lparr>pool_cache = cache s', pool_calls = calls s', tasks = map Finished (map snd fin)\<rparr>"
  using run_pool_is_schedule_gen [OF assms(1) assms(2) assms(3), of "[]"]
  by (simp add: pool_of_def pool_start_def)

lemma first_loop_pass_twice:
  "fst (snd (partition_uncached ascii_dec Map.empty
       (List.enumerate 0 [ustr_of ''PASS'', ustr_of ''PASS''])
       ([ustr_of ''PASS'', ustr_of ''PASS''], [], []))) = [ustr_of ''PASS'', ustr_of ''PASS'']"
  by (simp add: pass_facts)

text \<open>
  C4, as stated, fails.
  The batch is "PASS" twice, with an empty cache: one distinct trimmed eligible string,
  and the first loop of \<open>translate_batch\<close> submits both items. With two workers and a
  backend that always answers, the schedule in which both tasks look the cache up before
  either answer is stored sends two requests for the same text. With one worker and a
  backend that fails, the first task caches nothing and the second sends its request
  too. The claim allows one request in both runs.
\<close>

theorem duplicate_upstream_calls_counterexample:
  "remdups (map py_strip (filter (should_translate ascii_dec)
       [ustr_of ''PASS'', ustr_of ''PASS''])) = [ustr_of ''PASS'']
   \<and> fst (snd (partition_uncached ascii_dec Map.empty
       (List.enumerate 0 [ustr_of ''PASS'', ustr_of ''PASS''])
       ([ustr_of ''PASS'', ustr_of ''PASS''], [], []))) = [ustr_of ''PASS'', ustr_of ''PASS'']
   \<and> pool_calls (run_schedule \<lparr>upstream = (\<lambda>log t. Some [0x7B26, 0x5408]), decimal = ascii_dec,
                 completion = (\<lambda>finished. finished)\<rparr> 2 [0, 1, 0, 1]
       (pool_start \<lparr>enabled = True, cache = Map.empty, calls = []\<rparr> [ustr_of ''PASS'', ustr_of ''PASS'']))
     = [ustr_of ''PASS'', ustr_of ''PASS'']
   \<and> calls (snd (translate_batch \<lparr>upstream = (\<lambda>log t. None), decimal = ascii_dec,
                 completion = (\<lambda>finished. finished)\<rparr>
       \<lparr>enabled = True, cache = Map.empty, calls = []\<rparr> [ustr_of ''PASS'', ustr_of ''PASS'']))
     = [ustr_of ''PASS'', ustr_of ''PASS'']"
proof -
  have a: "pool_calls (run_schedule \<lparr>upstream = (\<lambda>log t. Some [0x7B26, 0x5408]), decimal = ascii_dec,
                 completion = (\<lambda>finished. finished)\<rparr> 2 [0, 1, 0, 1]
       (pool_start \<lparr>enabled = True, cache = Map.empty, calls = []\<rparr> [ustr_of ''PASS'', ustr_of ''PASS'']))
     = [ustr_of ''PASS'', ustr_of ''PASS'']"
    by (simp only: two_workers pool.select_convs)
  show ?thesis
    by (intro conjI) (rule k1, rule first_loop_pass_twice, rule a, rule seq_fail)
qed

text \<open>
  C4, amended.
  Let the uncached items of a batch be the items that are eligible and whose trimmed
  text is not a key of the cache when the batch starts. The requests a batch sends are
  requests for uncached items, at most one per uncached item: this holds when the tasks
  run one after another and, in the pool with several workers, for every number of
  workers and every schedule. When the engine is enabled, the tasks run one after
  another (one worker) and every request is answered, the requests sent have pairwise
  different trimmed texts and their number is exactly the number of distinct trimmed
  texts of the uncached items.
\<close>

theorem upstream_calls_per_batch:
  "(\<exists>new. calls (snd (translate_batch E self texts)) = calls self @ new
     \<and> set new \<subseteq> {t \<in> set texts. should_translate (decimal E) t \<and> cache self (py_strip t) = None}
     \<and> length new \<le> length (filter (\<lambda>t. should_translate (decimal E) t \<and> cache self (py_strip t) = None) texts)
     \<and> (enabled self \<and> (\<forall>log t. upstream E log t \<noteq> None) \<longrightarrow>
          distinct (map py_strip new)
          \<and> length new = card (py_strip ` {t \<in> set texts.
                should_translate (decimal E) t \<and> cache self (py_strip t) = None})))
   \<and> (\<forall>max_workers schedule.
        length (pool_calls (run_schedule E max_workers schedule
          (pool_start self
            (filter (\<lambda>t. should_translate (decimal E) t \<and> cache self (py_strip t) = None) texts))))
        \<le> length (calls self)
          + length (filter (\<lambda>t. should_translate (decimal E) t \<and> cache self (py_strip t) = None) texts))"
  using batch_upstream_calls [of E self texts] schedule_calls_bound [of E _ _ self]
  by blast

theorem upstream_calls_per_batch_witness:
  "length (calls (snd (translate_batch \<lparr>upstream = (\<lambda>log t. Some [0x7B26, 0x5408]), decimal = ascii_dec,
                 completion = (\<lambda>finished. finished)\<rparr>
       \<lparr>enabled = True, cache = Map.empty, calls = []\<rparr> [ustr_of ''PASS'', ustr_of ''PASS'']))) = 1"
proof -
  let ?E = "\<lparr>upstream = (\<lambda>log t. Some [0x7B26, 0x5408]), decimal = ascii_dec,
                 completion = (\<lambda>finished. finished)\<rparr>"
  let ?S = "\<lparr>enabled = True, cache = Map.empty, calls = []\<rparr>"
  let ?T = "[ustr_of ''PASS'', ustr_of ''PASS'']"
  have u: "{t \<in> set ?T. should_translate (decimal ?E) t \<and> cache ?S (py_strip t) = None}
           = {ustr_of ''PASS''}"
    by (auto simp: pass_facts)
  have ok: "enabled ?S \<and> (\<forall>log t. upstream ?E log t \<noteq> None)" by simp
  obtain new where n: "calls (snd (translate_batch ?E ?S ?T)) = calls ?S @ new"
    "enabled ?S \<and> (\<forall>log t. upstream ?E log t \<noteq> None) \<longrightarrow>
       distinct (map py_strip new)
       \<and> length new = card (py_strip ` {t \<in> set ?T.
             should_translate (decimal ?E) t \<and> cache ?S (py_strip t) = None})"
    using upstream_calls_per_batch [of ?E ?S ?T] by blast
  have "length new = card (py_strip ` {ustr_of ''PASS''})" using n(2) ok u by simp
  then have "length new = 1" by simp
  then show ?thesis using n(1) by simp
qed

section \<open>Slots of a batch\<close>









lemma run_schedule_tasks_length [simp]:
  "length (tasks (run_schedule E W schedule P)) = length (tasks P)"
  unfolding run_schedule_def by (induction schedule arbitrary: P) simp_all































end
